theory Spec2Isabelle
  imports Main "HOL-Library.Sublist" "HOL-Library.List_Lexorder"
begin

section \<open>Text\<close>

text \<open>
  A Python \<open>str\<close> is a sequence of Unicode code points; it is modelled as a list of
  natural numbers, one per code point. \<open>ascii\<close> turns an ASCII literal into such a list.
\<close>

type_synonym ustr = "nat list"

definition ascii :: "string \<Rightarrow> ustr" where
  "ascii s = map of_char s"

definition LF :: nat where
  "LF = 10"

definition CR :: nat where
  "CR = 13"

text \<open>
  \<open>str.isspace\<close> for one code point: the characters that \<open>str.strip()\<close> removes when it
  is called without an argument.
\<close>

definition isspace :: "nat \<Rightarrow> bool" where
  "isspace c \<longleftrightarrow>
     (9 \<le> c \<and> c \<le> 13) \<or> (28 \<le> c \<and> c \<le> 32) \<or> c = 133 \<or> c = 160 \<or> c = 5760 \<or>
     (8192 \<le> c \<and> c \<le> 8202) \<or> c = 8232 \<or> c = 8233 \<or> c = 8239 \<or> c = 8287 \<or> c = 12288"

definition strip :: "ustr \<Rightarrow> ustr" where
  "strip s = rev (dropWhile isspace (rev (dropWhile isspace s)))"

text \<open>\<open>s.lstrip('\n')\<close>: only leading line feeds are removed.\<close>

definition lstrip_newlines :: "ustr \<Rightarrow> ustr" where
  "lstrip_newlines s = dropWhile (\<lambda>c. c = LF) s"

text \<open>\<open>s.endswith(t)\<close> and \<open>t in s\<close>.\<close>

definition endswith :: "ustr \<Rightarrow> ustr \<Rightarrow> bool" where
  "endswith s t = suffix t s"

definition contains :: "ustr \<Rightarrow> ustr \<Rightarrow> bool" where
  "contains s t = sublist t s"

text \<open>
  Files are opened in text mode with the default \<open>newline=None\<close>: what \<open>read()\<close> and line
  iteration return has every \<open>\r\n\<close> and every lone \<open>\r\<close> replaced by \<open>\n\<close>. Written text
  goes to the file as it is (POSIX line separator).
\<close>

fun universal_newlines :: "ustr \<Rightarrow> ustr" where
  "universal_newlines [] = []"
| "universal_newlines [c] = [if c = CR then LF else c]"
| "universal_newlines (c # d # ds) =
     (if c = CR \<and> d = LF then LF # universal_newlines ds
      else (if c = CR then LF else c) # universal_newlines (d # ds))"

text \<open>The number of positions of \<open>s\<close> at which \<open>h\<close> starts.\<close>

fun occurrences :: "'a list \<Rightarrow> 'a list \<Rightarrow> nat" where
  "occurrences h [] = (if h = [] then 1 else 0)"
| "occurrences h (c # cs) = (if prefix h (c # cs) then 1 else 0) + occurrences h cs"

section \<open>Exceptions\<close>

text \<open>
  The exceptions that the loop body of \<open>main\<close> can raise, and the \<open>except\<close> clause that
  takes each of them (lines 284 to 299, tried in this order). \<open>UnicodeEncodeError\<close> is a
  subclass of \<open>ValueError\<close> and is taken by the same clause.
\<close>

datatype py_exc =
    CalledProcessError | RequestException | KeyError | IndexError | ValueError
  | UnicodeEncodeError | AttributeError | TypeError | OSError

datatype error_class = ConversionFailed | HttpFailed | ParseFailed | Unexpected

fun classify :: "py_exc \<Rightarrow> error_class" where
  "classify CalledProcessError = ConversionFailed"
| "classify RequestException = HttpFailed"
| "classify KeyError = ParseFailed"
| "classify IndexError = ParseFailed"
| "classify ValueError = ParseFailed"
| "classify UnicodeEncodeError = ParseFailed"
| "classify AttributeError = Unexpected"
| "classify TypeError = Unexpected"
| "classify OSError = Unexpected"

text \<open>
  The files are opened with \<open>encoding='utf-8'\<close> and the default strict error handling.
  \<open>f.write(s)\<close> encodes \<open>s\<close> when it is called: a string that holds a surrogate code point
  (U+D800 to U+DFFF) cannot be encoded and makes the call raise \<open>UnicodeEncodeError\<close>. What
  earlier calls have written stays in the file, which the \<open>with\<close> block closes on the way
  out. \<open>write_all\<close> performs a sequence of such calls on what the file holds and returns what
  it holds afterwards, with the exception if one was raised. The device itself is taken to
  accept every write.
\<close>

definition surrogate :: "nat \<Rightarrow> bool" where
  "surrogate c \<longleftrightarrow> 55296 \<le> c \<and> c \<le> 57343"

definition encodable :: "ustr \<Rightarrow> bool" where
  "encodable s = list_all (\<lambda>c. \<not> surrogate c) s"

fun write_all :: "ustr list \<Rightarrow> ustr \<Rightarrow> ustr \<times> py_exc option" where
  "write_all [] held = (held, None)"
| "write_all (s # ss) held =
     (if encodable s then write_all ss (held @ s) else (held, Some UnicodeEncodeError))"

section \<open>Merging an entry into a daily note\<close>

text \<open>
  Lines 242 to 269 of \<open>main\<close>. The daily note is \<open>None\<close> when \<open>os.path.isfile\<close> is false
  and \<open>Some text\<close> otherwise, \<open>text\<close> being what the file holds. The result is what the file
  holds afterwards, a new file in the first case and the old text with the written pieces
  appended (after \<open>f.seek(0, 2)\<close>) in the other two, together with the exception that a
  call of \<open>f.write\<close> raised, if one did.
\<close>

definition supernote_header_text :: ustr where
  "supernote_header_text = ascii ''## '' @ [10024] @ ascii '' Supernote''"

definition entry_block :: "ustr \<Rightarrow> ustr" where
  "entry_block markdown_content = [LF] @ strip markdown_content @ [LF]"

definition separator :: "ustr \<Rightarrow> ustr" where
  "separator content =
     (let sep0 = (if content \<noteq> [] \<and> \<not> endswith content [LF] then [LF, LF] else [LF]);
          sep1 = (if \<not> endswith content [LF, LF] \<and> endswith content [LF] then [LF] else sep0);
          sep2 = (if content = [] then [] else sep1)
      in sep2)"

datatype merge_case = Created | HeaderAdded | Appended

definition merge_case_of :: "ustr option \<Rightarrow> merge_case" where
  "merge_case_of doc =
     (case doc of
        None \<Rightarrow> Created
      | Some text \<Rightarrow>
          if \<not> contains (universal_newlines text) supernote_header_text then HeaderAdded
          else Appended)"

definition merge_entry :: "ustr option \<Rightarrow> ustr \<Rightarrow> ustr \<times> py_exc option" where
  "merge_entry doc markdown_content =
     (case doc of
        None \<Rightarrow>
          write_all [supernote_header_text @ [LF],
                     lstrip_newlines (entry_block markdown_content)] []
      | Some text \<Rightarrow>
          (let content = universal_newlines text in
           if \<not> contains content supernote_header_text then
             write_all [separator content, supernote_header_text @ [LF],
                        lstrip_newlines (entry_block markdown_content)] text
           else
             write_all ((if content \<noteq> [] \<and> \<not> endswith content [LF] then [[LF]] else [])
                        @ [lstrip_newlines (entry_block markdown_content)]) text))"

text \<open>
  The separator as the specification words it: nothing for an empty document, one newline
  when the content ends with exactly one newline, two newlines otherwise.
\<close>

definition spec_separator :: "ustr \<Rightarrow> ustr" where
  "spec_separator content =
     (if content = [] then []
      else if endswith content [LF] \<and> \<not> endswith content [LF, LF] then [LF]
      else [LF, LF])"

text \<open>
  The invariant of a daily note: the section header occurs at most once in it. A note that
  does not exist yet satisfies it.
\<close>

definition header_at_most_once :: "ustr option \<Rightarrow> bool" where
  "header_at_most_once doc =
     (case doc of None \<Rightarrow> True | Some text \<Rightarrow> occurrences supernote_header_text text \<le> 1)"

section \<open>The processed-files log\<close>

text \<open>
  The log file as \<open>load_processed_files\<close> meets it: absent (\<open>FileNotFoundError\<close>), holding a
  text, or failing with some other exception after the iteration has yielded some lines.
\<close>

datatype log_file = NotFound | Holds ustr | Broken "ustr list"

text \<open>
  Iterating over a text file yields its lines, each with its terminating \<open>\n\<close>; the last
  line has none when the text does not end with one.
\<close>

fun lines_from :: "ustr \<Rightarrow> ustr \<Rightarrow> ustr list" where
  "lines_from cur [] = (if cur = [] then [] else [cur])"
| "lines_from cur (c # cs) =
     (if c = LF then (cur @ [LF]) # lines_from [] cs else lines_from (cur @ [c]) cs)"

definition file_lines :: "ustr \<Rightarrow> ustr list" where
  "file_lines content = lines_from [] (universal_newlines content)"

definition add_lines :: "ustr list \<Rightarrow> ustr set \<Rightarrow> ustr set" where
  "add_lines ls processed = fold (\<lambda>line acc. insert (strip line) acc) ls processed"

definition load_processed_files :: "log_file \<Rightarrow> ustr set" where
  "load_processed_files f =
     (case f of
        NotFound \<Rightarrow> {}
      | Holds content \<Rightarrow> add_lines (file_lines content) {}
      | Broken ls \<Rightarrow> add_lines ls {})"

text \<open>
  The loaded set as the specification words it: the trimmed lines that are not empty.
\<close>

definition spec_load :: "ustr \<Rightarrow> ustr set" where
  "spec_load content = set (filter (\<lambda>n. n \<noteq> []) (map strip (file_lines content)))"

definition has_blank_line :: "ustr \<Rightarrow> bool" where
  "has_blank_line content = list_ex (\<lambda>line. strip line = []) (file_lines content)"

section \<open>Scanning the input directory\<close>

text \<open>
  \<open>re.match(r"(\d{8})_(\d{6})\.note", name)\<close> matches at the start of \<open>name\<close> and does not
  look at what follows the match. In a \<open>str\<close> pattern \<open>\d\<close> is any Unicode decimal digit:
  the ASCII digits and the further ones of the Unicode database, a table of the Python
  runtime that is taken as the parameter \<open>nd\<close>.
\<close>

definition is_digit :: "(nat \<Rightarrow> bool) \<Rightarrow> nat \<Rightarrow> bool" where
  "is_digit nd c \<longleftrightarrow> (48 \<le> c \<and> c \<le> 57) \<or> nd c"

definition match_digits :: "(nat \<Rightarrow> bool) \<Rightarrow> nat \<Rightarrow> ustr \<Rightarrow> (ustr \<times> ustr) option" where
  "match_digits nd n s =
     (if n \<le> length s \<and> list_all (is_digit nd) (take n s) then Some (take n s, drop n s)
      else None)"

definition match_literal :: "ustr \<Rightarrow> ustr \<Rightarrow> ustr option" where
  "match_literal lit s = (if prefix lit s then Some (drop (length lit) s) else None)"

definition note_match :: "(nat \<Rightarrow> bool) \<Rightarrow> ustr \<Rightarrow> (ustr \<times> ustr) option" where
  "note_match nd name =
     (case match_digits nd 8 name of
        None \<Rightarrow> None
      | Some (date_part, r1) \<Rightarrow>
          (case match_literal (ascii ''_'') r1 of
             None \<Rightarrow> None
           | Some r2 \<Rightarrow>
               (case match_digits nd 6 r2 of
                  None \<Rightarrow> None
                | Some (time_part, r3) \<Rightarrow>
                    (case match_literal (ascii ''.note'') r3 of
                       None \<Rightarrow> None
                     | Some r4 \<Rightarrow> Some (date_part, time_part)))))"

text \<open>
  The anchored pattern of the filename contract, \<open>^\d{8}_\d{6}\.note$\<close>: the same match with
  nothing left over.
\<close>

definition spec_full_match :: "(nat \<Rightarrow> bool) \<Rightarrow> ustr \<Rightarrow> bool" where
  "spec_full_match nd name \<longleftrightarrow>
     length name = 20 \<and> list_all (is_digit nd) (take 8 name) \<and> name ! 8 = 95 \<and>
     list_all (is_digit nd) (take 6 (drop 9 name)) \<and> drop 15 name = ascii ''.note''"

text \<open>
  A directory listing gives each entry's name and whether \<open>os.path.isfile\<close> holds for it.
  Lines 141 to 150: the matching regular files, then those not in the loaded log.
\<close>

type_synonym listing = "(ustr \<times> bool) list"

definition all_note_files_in_dir :: "(nat \<Rightarrow> bool) \<Rightarrow> listing \<Rightarrow> ustr list" where
  "all_note_files_in_dir nd entries =
     map fst (filter (\<lambda>(name, is_file). is_file \<and> note_match nd name \<noteq> None) entries)"

definition files_to_process :: "(nat \<Rightarrow> bool) \<Rightarrow> listing \<Rightarrow> ustr set \<Rightarrow> ustr list" where
  "files_to_process nd entries already_processed_files =
     filter (\<lambda>f. f \<notin> already_processed_files) (all_note_files_in_dir nd entries)"


section \<open>The recognition response\<close>

text \<open>
  What \<open>response.json()\<close> returns. A number is kept as an integer: the checks only read
  whether it is zero. An object lists its members, first match first.
\<close>

datatype json =
    JNull | JBool bool | JNum int | JStr ustr | JArr "json list" | JObj "(ustr \<times> json) list"

fun truthy :: "json \<Rightarrow> bool" where
  "truthy JNull = False"
| "truthy (JBool b) = b"
| "truthy (JNum n) = (n \<noteq> 0)"
| "truthy (JStr s) = (s \<noteq> [])"
| "truthy (JArr xs) = (xs \<noteq> [])"
| "truthy (JObj kvs) = (kvs \<noteq> [])"

text \<open>\<open>x.get(k)\<close>, \<open>x[k]\<close> for a string key, and \<open>x[0]\<close>.\<close>

fun py_get :: "json \<Rightarrow> ustr \<Rightarrow> py_exc + json" where
  "py_get (JObj kvs) k = (case map_of kvs k of None \<Rightarrow> Inr JNull | Some v \<Rightarrow> Inr v)"
| "py_get _ k = Inl AttributeError"

fun py_item :: "json \<Rightarrow> ustr \<Rightarrow> py_exc + json" where
  "py_item (JObj kvs) k = (case map_of kvs k of None \<Rightarrow> Inl KeyError | Some v \<Rightarrow> Inr v)"
| "py_item _ k = Inl TypeError"

fun py_first :: "json \<Rightarrow> py_exc + json" where
  "py_first (JArr xs) = (case xs of [] \<Rightarrow> Inl IndexError | x # _ \<Rightarrow> Inr x)"
| "py_first (JStr s) = (case s of [] \<Rightarrow> Inl IndexError | c # _ \<Rightarrow> Inr (JStr [c]))"
| "py_first (JObj kvs) = Inl KeyError"
| "py_first _ = Inl TypeError"

definition bind_exc :: "py_exc + 'a \<Rightarrow> ('a \<Rightarrow> py_exc + 'b) \<Rightarrow> py_exc + 'b" where
  "bind_exc r f = (case r of Inl e \<Rightarrow> Inl e | Inr v \<Rightarrow> f v)"

text \<open>
  The three expressions that the check of lines 231 to 234 and line 239 evaluate:
  \<open>response_json['candidates'][0]\<close>, \<open>...['content']\<close> and \<open>...['parts'][0]\<close>.
\<close>

definition candidate0 :: "json \<Rightarrow> py_exc + json" where
  "candidate0 response_json = bind_exc (py_item response_json (ascii ''candidates'')) py_first"

definition content0 :: "json \<Rightarrow> py_exc + json" where
  "content0 response_json =
     bind_exc (candidate0 response_json) (\<lambda>c. py_item c (ascii ''content''))"

definition part0 :: "json \<Rightarrow> py_exc + json" where
  "part0 response_json =
     bind_exc (content0 response_json)
       (\<lambda>c. bind_exc (py_item c (ascii ''parts'')) py_first)"

text \<open>
  The condition of the \<open>if\<close> at lines 231 to 234, a chain of \<open>or\<close> evaluated from the left:
  \<open>Inr True\<close> when some \<open>not ...\<close> holds, \<open>Inl e\<close> when evaluating it raises \<open>e\<close>.
\<close>

definition response_invalid :: "json \<Rightarrow> py_exc + bool" where
  "response_invalid response_json =
     bind_exc (py_get response_json (ascii ''candidates'')) (\<lambda>v1.
       if \<not> truthy v1 then Inr True
       else bind_exc (candidate0 response_json) (\<lambda>c.
         bind_exc (py_get c (ascii ''content'')) (\<lambda>v2.
           if \<not> truthy v2 then Inr True
           else bind_exc (content0 response_json) (\<lambda>ct.
             bind_exc (py_get ct (ascii ''parts'')) (\<lambda>v3.
               if \<not> truthy v3 then Inr True
               else bind_exc (part0 response_json) (\<lambda>p.
                 bind_exc (py_get p (ascii ''text'')) (\<lambda>v4.
                   Inr (\<not> truthy v4))))))))"

text \<open>Line 239.\<close>

definition markdown_content_of :: "json \<Rightarrow> py_exc + json" where
  "markdown_content_of response_json =
     bind_exc (part0 response_json) (\<lambda>p. py_item p (ascii ''text''))"







section \<open>The run\<close>

text \<open>
  What the run prints and starts, in order. Each constructor stands for one message of the
  script or for one external command; purely informational messages are left out. Printing
  is taken to succeed, and so are the \<open>except\<close> clauses, which only print.
\<close>

datatype git_cmd = RevParse | GitAdd | GitStatus | GitCommit ustr | GitPush

datatype event =
    MissingKeyFile | EmptyKey | MissingInputDir | NothingToDo
  | ConversionDone ustr
  | InvalidResponse ustr
  | TextExtracted ustr
  | NoteWritten merge_case ustr
  | LedgerAdded ustr
  | LedgerWriteFailed ustr
  | CriticalWarning ustr
  | ItemSucceeded ustr
  | ItemFailed ustr error_class
  | GitRun git_cmd
  | GitCommandFailed git_cmd
  | GitSkipWarning
  | NoChangesToCommit
  | NothingProcessed
  | FinishedWithErrors | PartialSuccess | FinishedOk

text \<open>
  The world outside the script: the credential file, the input directory, the Unicode digit
  table, and the outcome of every call the script makes to a library or to another program,
  keyed by the file being processed. \<open>None\<close> stands for a missing file or directory, for
  success of a call that can raise, and for failure of \<open>strptime\<close> and of the repository
  check, as said for each field.
\<close>

record env =
  api_key_file :: "ustr option"  \<comment> \<open>text of the key file, \<open>None\<close> when it does not exist\<close>
  input_dir :: "listing option"  \<comment> \<open>\<open>None\<close> when \<open>os.path.isdir\<close> is false\<close>
  decimal_table :: "nat \<Rightarrow> bool"  \<comment> \<open>the decimal digits beyond ASCII\<close>
  strptime :: "ustr \<Rightarrow> (ustr \<times> ustr \<times> ustr) option"
    \<comment> \<open>\<open>strptime(s, "%Y%m%d")\<close> then \<open>strftime\<close> of year, month, day; \<open>None\<close>: \<open>ValueError\<close>\<close>
  convert :: "ustr \<Rightarrow> py_exc option"  \<comment> \<open>lines 189 to 192; \<open>None\<close>: the tool succeeded\<close>
  post :: "ustr \<Rightarrow> py_exc + json"
    \<comment> \<open>lines 196 to 229: reading the PDF, the request, its status, decoding the reply\<close>
  open_note :: "ustr \<Rightarrow> py_exc option"  \<comment> \<open>opening the daily note; \<open>None\<close>: it opens\<close>
  log_read_error :: "nat option"
    \<comment> \<open>\<open>Some n\<close>: reading the log raises after \<open>n\<close> lines\<close>
  log_append :: "ustr \<Rightarrow> bool"  \<comment> \<open>appending this name to the log succeeds\<close>
  rev_parse :: "ustr option"  \<comment> \<open>standard output of the repository check; \<open>None\<close>: it fails\<close>
  git_add :: bool
  git_status :: ustr
  git_commit :: bool
  git_push :: bool

text \<open>
  The files the script writes (the daily notes by file name, the processed-files log) and
  the variables of \<open>main\<close>.
\<close>

record state =
  daily_notes :: "ustr \<rightharpoonup> ustr"
  processed_log :: "ustr option"
  already_processed_files :: "ustr set"
  processed_dates_for_commit :: "ustr set"
  any_file_processed_successfully_this_run :: bool
  newly_processed_count :: nat
  trace :: "event list"

definition initial :: "(ustr \<rightharpoonup> ustr) \<Rightarrow> ustr option \<Rightarrow> state" where
  "initial ns lg =
     \<lparr>daily_notes = ns, processed_log = lg, already_processed_files = {},
      processed_dates_for_commit = {}, any_file_processed_successfully_this_run = False,
      newly_processed_count = 0, trace = []\<rparr>"

definition log_event :: "event \<Rightarrow> state \<Rightarrow> state" where
  "log_event e st = st\<lparr>trace := trace st @ [e]\<rparr>"

definition read_log :: "env \<Rightarrow> state \<Rightarrow> log_file" where
  "read_log env st =
     (case processed_log st of
        None \<Rightarrow> NotFound
      | Some content \<Rightarrow>
          (case log_read_error env of
             None \<Rightarrow> Holds content
           | Some n \<Rightarrow> Broken (take n (file_lines content))))"

text \<open>
  Lines 94 to 103. The log is opened for appending, which creates it when it does not
  exist, and one line is written; every exception is caught and makes the result \<open>False\<close>.
  \<open>log_append\<close> of the world says whether the file opens.
\<close>

definition add_to_processed_log :: "env \<Rightarrow> ustr \<Rightarrow> state \<Rightarrow> bool \<times> state" where
  "add_to_processed_log env filename st =
     (if log_append env filename then
        (case write_all [filename @ [LF]]
                (case processed_log st of None \<Rightarrow> [] | Some content \<Rightarrow> content) of
           (held, None) \<Rightarrow>
             (True, log_event (LedgerAdded filename) (st\<lparr>processed_log := Some held\<rparr>))
         | (held, Some e) \<Rightarrow>
             (False, log_event (LedgerWriteFailed filename) (st\<lparr>processed_log := Some held\<rparr>)))
      else (False, log_event (LedgerWriteFailed filename) st))"

text \<open>\<open>markdown_content.strip()\<close> of line 242 needs a string.\<close>

fun str_of :: "json \<Rightarrow> py_exc + ustr" where
  "str_of (JStr s) = Inr s"
| "str_of _ = Inl AttributeError"

text \<open>
  Lines 242 to 282: the merge into the daily note, the log entry and the bookkeeping, once
  the text is there. \<open>open_note\<close> of the world stands for what can fail before anything is
  written: creating the directory, opening the note, reading and decoding it. A write that
  raises leaves the note with what was written before it.
\<close>

definition write_and_record :: "env \<Rightarrow> ustr \<Rightarrow> ustr \<Rightarrow> ustr \<Rightarrow> state \<Rightarrow> (py_exc \<times> state) + state" where
  "write_and_record env filename day markdown_content st =
     (let obsidian_md_filename = day @ ascii ''.md'' in
      case open_note env obsidian_md_filename of
        Some e \<Rightarrow> Inl (e, st)
      | None \<Rightarrow>
          (let doc = daily_notes st obsidian_md_filename;
               (held, raised) = merge_entry doc markdown_content;
               st' = st\<lparr>daily_notes := (daily_notes st)(obsidian_md_filename \<mapsto> held)\<rparr>
           in case raised of
                Some e \<Rightarrow> Inl (e, st')
              | None \<Rightarrow>
                  (let st3 = log_event (NoteWritten (merge_case_of doc) obsidian_md_filename) st';
                       (ok, st4) = add_to_processed_log env filename st3;
                       st5 = (if ok
                              then st4\<lparr>already_processed_files :=
                                         insert filename (already_processed_files st4)\<rparr>
                              else log_event (CriticalWarning filename) st4)
                   in Inr (log_event (ItemSucceeded filename)
                             (st5\<lparr>processed_dates_for_commit :=
                                     insert day (processed_dates_for_commit st5),
                                  any_file_processed_successfully_this_run := True,
                                  newly_processed_count := newly_processed_count st5 + 1\<rparr>)))))"

text \<open>
  The body of the \<open>try\<close> for one file (lines 164 to 282): \<open>Inl (e, st)\<close> when \<open>e\<close> is raised with
  the state as it is then, \<open>Inr st\<close> when the body ends (also by \<open>continue\<close>).
\<close>

definition try_item :: "env \<Rightarrow> ustr \<Rightarrow> state \<Rightarrow> (py_exc \<times> state) + state" where
  "try_item env filename st =
     (case note_match (decimal_table env) filename of
        None \<Rightarrow> Inr st
      | Some (date_part_str, time_part_str) \<Rightarrow>
          (case strptime env date_part_str of
             None \<Rightarrow> Inl (ValueError, st)
           | Some (year_str, month_str, day_str) \<Rightarrow>
               (case convert env filename of
                  Some e \<Rightarrow> Inl (e, st)
                | None \<Rightarrow>
                    (let st1 = log_event (ConversionDone filename) st in
                     case post env filename of
                       Inl e \<Rightarrow> Inl (e, st1)
                     | Inr response_json \<Rightarrow>
                         (case response_invalid response_json of
                            Inl e \<Rightarrow> Inl (e, st1)
                          | Inr True \<Rightarrow>
                              Inl (ValueError, log_event (InvalidResponse filename) st1)
                          | Inr False \<Rightarrow>
                              (case markdown_content_of response_json of
                                 Inl e \<Rightarrow> Inl (e, st1)
                               | Inr v \<Rightarrow>
                                   (let st2 = log_event (TextExtracted filename) st1 in
                                    case str_of v of
                                      Inl e \<Rightarrow> Inl (e, st2)
                                    | Inr markdown_content \<Rightarrow>
                                        write_and_record env filename
                                          (year_str @ ascii ''-'' @ month_str @ ascii ''-''
                                             @ day_str)
                                          markdown_content st2)))))))"

text \<open>The \<open>except\<close> clauses, and the \<open>for\<close> loop over the files to process.\<close>

definition process_item :: "env \<Rightarrow> ustr \<Rightarrow> state \<Rightarrow> state" where
  "process_item env filename st =
     (case try_item env filename st of
        Inr st' \<Rightarrow> st'
      | Inl (e, st') \<Rightarrow> log_event (ItemFailed filename (classify e)) st')"

fun process_files :: "env \<Rightarrow> ustr list \<Rightarrow> state \<Rightarrow> state" where
  "process_files env [] st = st"
| "process_files env (filename # rest) st = process_files env rest (process_item env filename st)"

section \<open>Version control and the end of the run\<close>

fun join :: "ustr \<Rightarrow> ustr list \<Rightarrow> ustr" where
  "join sep [] = []"
| "join sep [x] = x"
| "join sep (x # y # ys) = x @ sep @ join sep (y # ys)"

definition commit_message_of :: "ustr set \<Rightarrow> ustr" where
  "commit_message_of dates =
     ascii ''Update daily notes from Supernote for dates: ''
       @ join (ascii '', '') (sorted_list_of_set dates)"

text \<open>
  Lines 302 to 322. Every command is recorded when it is started, and \<open>run_git_command\<close>
  (lines 104 to 119) reports the failure of the command it ran. \<open>git push\<close> is the last one
  and the value \<open>run_git_command\<close> returns for it is not looked at.
\<close>

definition git_operations :: "env \<Rightarrow> state \<Rightarrow> state" where
  "git_operations env st =
     (let commit_message = commit_message_of (processed_dates_for_commit st);
          st1 = log_event (GitRun RevParse) st
      in case rev_parse env of
           None \<Rightarrow> log_event GitSkipWarning st1
         | Some out \<Rightarrow>
             if strip out = ascii ''true'' then
               (let st2 = log_event (GitRun GitAdd) st1 in
                if git_add env then
                  (let st3 = log_event (GitRun GitStatus) st2 in
                   if strip (git_status env) \<noteq> [] then
                     (let st4 = log_event (GitRun (GitCommit commit_message)) st3 in
                      if git_commit env then
                        (let st5 = log_event (GitRun GitPush) st4 in
                         if git_push env then st5
                         else log_event (GitCommandFailed GitPush) st5)
                      else log_event (GitCommandFailed (GitCommit commit_message)) st4)
                   else log_event NoChangesToCommit st3)
                else log_event (GitCommandFailed GitAdd) st2)
             else st1)"

text \<open>
  \<open>main\<close> (lines 123 to 341) returns the exit status with the final state. The directories
  it creates with \<open>os.makedirs\<close> and the listing of the input directory are taken to succeed.
\<close>

definition main :: "env \<Rightarrow> state \<Rightarrow> nat \<times> state" where
  "main env st0 =
     (let st1 = st0\<lparr>already_processed_files := load_processed_files (read_log env st0)\<rparr>
      in case input_dir env of
           None \<Rightarrow> (1, log_event MissingInputDir st1)
         | Some entries \<Rightarrow>
             (let todo = files_to_process (decimal_table env) entries (already_processed_files st1) in
              if todo = [] then (0, log_event NothingToDo st1)
              else
                (let st2 = process_files env todo
                             (st1\<lparr>processed_dates_for_commit := {},
                                  any_file_processed_successfully_this_run := False,
                                  newly_processed_count := 0\<rparr>);
                     st3 = (if processed_dates_for_commit st2 \<noteq> {} then git_operations env st2
                            else if todo \<noteq> [] then log_event NothingProcessed st2
                            else st2)
                 in if \<not> any_file_processed_successfully_this_run st3 \<and> todo \<noteq> [] then
                      (1, log_event FinishedWithErrors st3)
                    else if newly_processed_count st3 < length todo \<and> todo \<noteq> [] then
                      (0, log_event PartialSuccess st3)
                    else (0, log_event FinishedOk st3))))"

text \<open>
  The module as it runs: the credential is read and checked (lines 61 to 68) before \<open>main\<close>
  is called.
\<close>

definition script :: "env \<Rightarrow> state \<Rightarrow> nat \<times> state" where
  "script env st0 =
     (case api_key_file env of
        None \<Rightarrow> (1, log_event MissingKeyFile st0)
      | Some key_text \<Rightarrow>
          if strip (universal_newlines key_text) = [] then (1, log_event EmptyKey st0)
          else main env st0)"

text \<open>
  The fatal precondition on the credential (no key file, or nothing but white space in it)
  and the files a run has to process.
\<close>

definition credential_missing :: "env \<Rightarrow> bool" where
  "credential_missing env =
     (case api_key_file env of
        None \<Rightarrow> True
      | Some key_text \<Rightarrow> strip (universal_newlines key_text) = [])"

definition work_items :: "env \<Rightarrow> state \<Rightarrow> ustr list" where
  "work_items env st0 =
     (case input_dir env of
        None \<Rightarrow> []
      | Some entries \<Rightarrow>
          files_to_process (decimal_table env) entries
            (load_processed_files (read_log env st0)))"

text \<open>The state when the loop over the files to process has ended (line 299).\<close>

definition after_loop :: "env \<Rightarrow> state \<Rightarrow> state" where
  "after_loop env st0 =
     process_files env (work_items env st0)
       (st0\<lparr>already_processed_files := load_processed_files (read_log env st0),
            processed_dates_for_commit := {},
            any_file_processed_successfully_this_run := False,
            newly_processed_count := 0\<rparr>)"

text \<open>What \<open>git_operations\<close> adds to the trace, as a list.\<close>

definition git_steps :: "env \<Rightarrow> ustr \<Rightarrow> event list" where
  "git_steps env commit_message =
     GitRun RevParse #
     (case rev_parse env of
        None \<Rightarrow> [GitSkipWarning]
      | Some out \<Rightarrow>
          if strip out \<noteq> ascii ''true'' then []
          else GitRun GitAdd #
            (if \<not> git_add env then [GitCommandFailed GitAdd]
             else GitRun GitStatus #
               (if strip (git_status env) = [] then [NoChangesToCommit]
                else GitRun (GitCommit commit_message) #
                  (if \<not> git_commit env then [GitCommandFailed (GitCommit commit_message)]
                   else GitRun GitPush #
                     (if git_push env then [] else [GitCommandFailed GitPush])))))"

section \<open>The stages of one file, as the world decides them\<close>

text \<open>
  Whether a file goes through is decided by the world alone, not by what the run has done
  before. \<open>item_day\<close> is the date of the file when its name matches and the date parses,
  \<open>recognized_text\<close> the text of the reply when the conversion, the request and the check of
  the reply succeed and the text is a string. The file succeeds when, in addition, its daily
  note opens and the trimmed text can be written to it.
\<close>

definition item_day :: "env \<Rightarrow> ustr \<Rightarrow> ustr option" where
  "item_day env f =
     (case note_match (decimal_table env) f of
        None \<Rightarrow> None
      | Some (d, t) \<Rightarrow>
          (case strptime env d of
             None \<Rightarrow> None
           | Some (y, m, dd) \<Rightarrow> Some (y @ ascii ''-'' @ m @ ascii ''-'' @ dd)))"

definition recognized_text :: "env \<Rightarrow> ustr \<Rightarrow> ustr option" where
  "recognized_text env f =
     (case convert env f of
        Some e \<Rightarrow> None
      | None \<Rightarrow>
          (case post env f of
             Inl e \<Rightarrow> None
           | Inr j \<Rightarrow>
               (if response_invalid j = Inr False then
                  (case markdown_content_of j of Inr (JStr s) \<Rightarrow> Some s | _ \<Rightarrow> None)
                else None)))"

definition item_succeeds :: "env \<Rightarrow> ustr \<Rightarrow> bool" where
  "item_succeeds env f =
     (case item_day env f of
        None \<Rightarrow> False
      | Some day \<Rightarrow>
          (case recognized_text env f of
             None \<Rightarrow> False
           | Some s \<Rightarrow> open_note env (day @ ascii ''.md'') = None \<and> encodable (strip s)))"

text \<open>
  The log takes the name of a file when the log opens and the name can be encoded.
\<close>

definition log_takes :: "env \<Rightarrow> ustr \<Rightarrow> bool" where
  "log_takes env f \<longleftrightarrow> log_append env f \<and> encodable f"

text \<open>
  The daily notes after a file: the note of its day holds what the merge wrote, all of it
  or the part before the write that raised, whenever the merge was reached and the note
  opened.
\<close>

definition notes_after :: "env \<Rightarrow> ustr \<Rightarrow> (ustr \<rightharpoonup> ustr) \<Rightarrow> (ustr \<rightharpoonup> ustr)" where
  "notes_after env f ns =
     (case item_day env f of
        None \<Rightarrow> ns
      | Some day \<Rightarrow>
          (case recognized_text env f of
             None \<Rightarrow> ns
           | Some s \<Rightarrow>
               if open_note env (day @ ascii ''.md'') = None
               then ns(day @ ascii ''.md'' \<mapsto> fst (merge_entry (ns (day @ ascii ''.md'')) s))
               else ns))"

text \<open>The dates of the files of a list that succeed.\<close>

definition touched_dates :: "env \<Rightarrow> ustr list \<Rightarrow> ustr set" where
  "touched_dates env fs =
     set (List.map_filter (\<lambda>f. if item_succeeds env f then item_day env f else None) fs)"

text \<open>What a state holds apart from the messages: the files and the variables of \<open>main\<close>.\<close>

definition files_and_variables ::
  "state \<Rightarrow> (ustr \<rightharpoonup> ustr) \<times> ustr option \<times> ustr set \<times> ustr set \<times> bool \<times> nat" where
  "files_and_variables st =
     (daily_notes st, processed_log st, already_processed_files st,
      processed_dates_for_commit st, any_file_processed_successfully_this_run st,
      newly_processed_count st)"

text \<open>
  The text of the log, and the names that a trace reports as added to the log, in order.
\<close>

definition log_text :: "ustr option \<Rightarrow> ustr" where
  "log_text lg = (case lg of None \<Rightarrow> [] | Some content \<Rightarrow> content)"

definition ledger_names :: "event list \<Rightarrow> ustr list" where
  "ledger_names evs = concat (map (\<lambda>ev. case ev of LedgerAdded g \<Rightarrow> [g] | _ \<Rightarrow> []) evs)"

text \<open>The external commands of version control that a trace holds, in the order they ran.\<close>

definition git_commands :: "event list \<Rightarrow> git_cmd list" where
  "git_commands evs = concat (map (\<lambda>ev. case ev of GitRun c \<Rightarrow> [c] | _ \<Rightarrow> []) evs)"

section \<open>A sample world\<close>

text \<open>
  A sample world for instantiating the theorems: one capture file in the input directory,
  every external call succeeds, and the recognition reply holds the text \<open>Hello\<close>.
\<close>

definition sample_file :: ustr where
  "sample_file = ascii ''20240101_120000.note''"

definition sample_reply :: "ustr \<Rightarrow> json" where
  "sample_reply fragment =
     JObj [(ascii ''candidates'',
       JArr [JObj [(ascii ''content'',
         JObj [(ascii ''parts'', JArr [JObj [(ascii ''text'', JStr fragment)]])])]])]"

definition sample_env :: env where
  "sample_env =
     \<lparr>api_key_file = Some (ascii ''secret'' @ [LF]),
      input_dir = Some [(sample_file, True)],
      decimal_table = (\<lambda>c. False),
      strptime = (\<lambda>s. Some (take 4 s, take 2 (drop 4 s), drop 6 s)),
      convert = (\<lambda>f. None),
      post = (\<lambda>f. Inr (sample_reply (ascii ''Hello''))),
      open_note = (\<lambda>p. None),
      log_read_error = None,
      log_append = (\<lambda>f. True),
      rev_parse = Some (ascii ''true'' @ [LF]),
      git_add = True,
      git_status = ascii ''A  2024-01-01.md'' @ [LF],
      git_commit = True,
      git_push = True\<rparr>"


section \<open>Evaluation on concrete texts\<close>

lemmas ev = ascii_def LF_def CR_def supernote_header_text_def contains_def endswith_def
  sublist_Cons_right suffix_to_prefix lstrip_newlines_def entry_block_def strip_def isspace_def
  encodable_def surrogate_def

section \<open>Writing the pieces of an entry\<close>

lemma encodable_append [simp]: "encodable (a @ b) \<longleftrightarrow> encodable a \<and> encodable b"
  by (simp add: encodable_def)

lemma encodable_fixed [simp]:
  "encodable []" "encodable [LF]" "encodable [LF, LF]" "encodable supernote_header_text"
  by (simp_all add: ev)

lemma strip_hd: "strip s \<noteq> [] \<Longrightarrow> \<not> isspace (hd (strip s))"
proof -
  assume a: "strip s \<noteq> []"
  let ?t = "dropWhile isspace s"
  from a have ne: "dropWhile isspace (rev ?t) \<noteq> []" by (simp add: strip_def)
  then have "?t \<noteq> []" by (metis dropWhile.simps(1) rev.simps(1))
  have "hd (strip s) = last (dropWhile isspace (rev ?t))"
    using ne by (simp add: strip_def hd_rev)
  also have "\<dots> = last (rev ?t)"
    using ne by (metis last_appendR takeWhile_dropWhile_id)
  also have "\<dots> = hd ?t"
    using \<open>?t \<noteq> []\<close> by (simp add: last_rev)
  finally show ?thesis
    using \<open>?t \<noteq> []\<close> hd_dropWhile by metis
qed

lemma lstrip_entry_block:
  "lstrip_newlines (entry_block m) = (if strip m = [] then [] else strip m @ [LF])"
proof (cases "strip m")
  case Nil
  then show ?thesis by (simp add: lstrip_newlines_def entry_block_def)
next
  case (Cons c cs)
  with strip_hd [of m] have "\<not> isspace c" by simp
  then have "c \<noteq> LF" by (auto simp: isspace_def LF_def)
  with Cons show ?thesis by (simp add: lstrip_newlines_def entry_block_def)
qed

lemma encodable_block [simp]:
  "encodable (lstrip_newlines (entry_block m)) \<longleftrightarrow> encodable (strip m)"
  by (simp add: lstrip_entry_block)

lemma separator_eq:
  "separator content =
     (if content = [] then [] else if endswith content [LF] then [LF] else [LF, LF])"
  by (simp add: separator_def Let_def endswith_def)

lemma encodable_separator [simp]: "encodable (separator content)"
  by (simp add: separator_eq encodable_def surrogate_def LF_def)

text \<open>
  When the trimmed fragment can be encoded, every piece is written. When it cannot, the
  pieces before it are written and the note is left as a merge of the empty fragment leaves
  it.
\<close>

lemma merge_entry_complete:
  assumes "encodable (strip m)"
  shows "merge_entry doc m =
     ((case doc of
         None \<Rightarrow> supernote_header_text @ [LF] @ lstrip_newlines (entry_block m)
       | Some body \<Rightarrow>
           if \<not> contains (universal_newlines body) supernote_header_text then
             body @ separator (universal_newlines body) @ supernote_header_text @ [LF]
                  @ lstrip_newlines (entry_block m)
           else
             body @ (if universal_newlines body \<noteq> [] \<and> \<not> endswith (universal_newlines body) [LF]
                     then [LF] else [])
                  @ lstrip_newlines (entry_block m)),
      None)"
  using assms by (simp add: merge_entry_def Let_def split: option.splits)

lemma merge_entry_raises:
  assumes "\<not> encodable (strip m)"
  shows "merge_entry doc m = (fst (merge_entry doc []), Some UnicodeEncodeError)"
proof -
  have e: "strip [] = []" by (simp add: strip_def)
  have b: "lstrip_newlines (entry_block []) = []"
    by (simp add: lstrip_entry_block e)
  show ?thesis
    using assms by (simp add: merge_entry_def Let_def b split: option.splits)
qed

lemma merge_entry_text:
  assumes "encodable (strip m)"
  shows "fst (merge_entry doc m) =
     (case doc of
         None \<Rightarrow> supernote_header_text @ [LF] @ lstrip_newlines (entry_block m)
       | Some body \<Rightarrow>
           if \<not> contains (universal_newlines body) supernote_header_text then
             body @ separator (universal_newlines body) @ supernote_header_text @ [LF]
                  @ lstrip_newlines (entry_block m)
           else
             body @ (if universal_newlines body \<noteq> [] \<and> \<not> endswith (universal_newlines body) [LF]
                     then [LF] else [])
                  @ lstrip_newlines (entry_block m))"
  by (simp add: merge_entry_complete [OF assms])

section \<open>Properties of the separator\<close>

text \<open>
  C1, as stated, fails: a document whose content ends with two newlines gets one newline
  as separator, where the claim promises two.
\<close>

theorem separator_two_newlines_counterexample:
  "separator (ascii ''a'' @ [LF, LF]) = [LF] \<and>
   spec_separator (ascii ''a'' @ [LF, LF]) = [LF, LF]"
  by (simp add: separator_eq spec_separator_def endswith_def ascii_def LF_def suffix_to_prefix)

text \<open>
  C1 (amended): when the daily note exists and its content does not contain the section
  header, the text written before the header line is empty if the content is empty, a single
  newline if the content ends with a newline (one or several), and two newlines otherwise;
  the header line follows, and then the entry, unless the entry cannot be encoded, in which
  case the write of the entry raises after the separator and the header line are written.
\<close>

theorem merge_entry_separator:
  assumes "\<not> contains (universal_newlines text) supernote_header_text"
  shows "merge_entry (Some text) markdown_content =
           (text
            @ (if universal_newlines text = [] then []
               else if endswith (universal_newlines text) [LF] then [LF]
               else [LF, LF])
            @ supernote_header_text @ [LF]
            @ (if encodable (strip markdown_content)
               then lstrip_newlines (entry_block markdown_content) else []),
            if encodable (strip markdown_content) then None else Some UnicodeEncodeError)"
proof -
  have "encodable (if universal_newlines text = [] then []
               else if endswith (universal_newlines text) [LF] then [LF]
               else [LF, LF])"
    by simp
  then show ?thesis
    using assms by (simp add: merge_entry_def Let_def separator_eq)
qed

theorem merge_entry_separator_witness:
  "\<not> contains (universal_newlines (ascii ''# Title'' @ [LF])) supernote_header_text \<and>
   merge_entry (Some (ascii ''# Title'' @ [LF])) (ascii ''Hello'') =
     (ascii ''# Title'' @ [LF, LF] @ supernote_header_text @ [LF] @ ascii ''Hello'' @ [LF],
      None)"
  using merge_entry_separator [of "ascii ''# Title'' @ [LF]" "ascii ''Hello''"]
  by (simp add: ev)

section \<open>Occurrences of the header\<close>

lemma prefix_barrier: "x \<notin> set h \<Longrightarrow> prefix h (a @ x # b) \<longleftrightarrow> prefix h a"
  by (auto simp: prefix_append prefix_Cons)

lemma occurrences_barrier:
  "h \<noteq> [] \<Longrightarrow> x \<notin> set h \<Longrightarrow> occurrences h (a @ x # b) = occurrences h a + occurrences h b"
proof (induction a)
  case Nil
  then show ?case by (cases h) auto
next
  case (Cons c a)
  have "prefix h ((c # a) @ x # b) \<longleftrightarrow> prefix h (c # a)"
    using Cons.prems(2) by (rule prefix_barrier)
  with Cons show ?case by simp
qed

lemma occurrences_zero_iff: "occurrences h s = 0 \<longleftrightarrow> \<not> sublist h s"
  by (induction s) (auto simp: sublist_Cons_right)

lemma occurrences_self: "h \<noteq> [] \<Longrightarrow> occurrences h h = 1"
proof (cases h)
  case Nil
  then show "h \<noteq> [] \<Longrightarrow> ?thesis" by simp
next
  case (Cons c cs)
  have "\<not> sublist (c # cs) cs"
    using sublist_length_le by fastforce
  then have "occurrences (c # cs) cs = 0"
    by (simp add: occurrences_zero_iff)
  with Cons show ?thesis by simp
qed

lemma occurrences_snoc_barrier:
  "h \<noteq> [] \<Longrightarrow> x \<notin> set h \<Longrightarrow> occurrences h (a @ [x]) = occurrences h a"
  using occurrences_barrier [of h x a "[]"] by simp

lemma universal_newlines_prefix:
  "LF \<notin> set h \<Longrightarrow> CR \<notin> set h \<Longrightarrow> prefix h (universal_newlines s) \<longleftrightarrow> prefix h s"
proof (induction s arbitrary: h rule: universal_newlines.induct)
  case 1
  then show ?case by simp
next
  case (2 c)
  then show ?case by (cases h) auto
next
  case (3 c d ds)
  then show ?case by (cases h) (auto simp: LF_def CR_def)
qed

lemma universal_newlines_sublist:
  "LF \<notin> set h \<Longrightarrow> CR \<notin> set h \<Longrightarrow> sublist h (universal_newlines s) \<longleftrightarrow> sublist h s"
proof (induction s rule: universal_newlines.induct)
  case 1
  then show ?case by simp
next
  case (2 c)
  then show ?case by (cases h) (auto simp: sublist_Cons_right prefix_Cons)
next
  case (3 c d ds)
  have p: "prefix h (universal_newlines (c # d # ds)) \<longleftrightarrow> prefix h (c # d # ds)"
    using 3(3,4) by (rule universal_newlines_prefix)
  show ?case
  proof (cases h)
    case Nil
    then show ?thesis by simp
  next
    case (Cons x xs)
    with 3 p show ?thesis
      by (auto simp: sublist_Cons_right prefix_Cons)
  qed
qed

lemma universal_newlines_Nil: "universal_newlines s = [] \<longleftrightarrow> s = []"
  by (induction s rule: universal_newlines.induct) auto

lemma universal_newlines_last:
  "s \<noteq> [] \<Longrightarrow> last (universal_newlines s) = (if last s = CR then LF else last s)"
  by (induction s rule: universal_newlines.induct) (auto simp: universal_newlines_Nil)

lemma endswith_single: "endswith s [x] \<longleftrightarrow> s \<noteq> [] \<and> last s = x"
  by (cases s rule: rev_cases) (auto simp: endswith_def)

lemma universal_newlines_endswith_LF:
  "endswith (universal_newlines s) [LF] \<longleftrightarrow> s \<noteq> [] \<and> (last s = LF \<or> last s = CR)"
  by (auto simp: endswith_single universal_newlines_Nil universal_newlines_last)

lemma header_facts:
  "supernote_header_text \<noteq> []" "LF \<notin> set supernote_header_text" "CR \<notin> set supernote_header_text"
  by (simp_all add: ev)

lemma occurrences_block:
  "\<not> contains (strip m) supernote_header_text \<Longrightarrow>
   occurrences supernote_header_text (lstrip_newlines (entry_block m)) = 0"
proof -
  assume "\<not> contains (strip m) supernote_header_text"
  then have z: "occurrences supernote_header_text (strip m) = 0"
    by (simp add: occurrences_zero_iff contains_def)
  have "occurrences supernote_header_text (strip m @ [LF]) = 0"
    using occurrences_snoc_barrier [OF header_facts(1) header_facts(2), of "strip m"] z
    by simp
  then show ?thesis
    by (simp add: lstrip_entry_block header_facts)
qed

lemma occurrences_header_line:
  assumes "\<not> contains (strip m) supernote_header_text"
  shows "occurrences supernote_header_text
           (supernote_header_text @ [LF] @ lstrip_newlines (entry_block m)) = 1"
  using occurrences_barrier [of supernote_header_text LF supernote_header_text
          "lstrip_newlines (entry_block m)"]
        occurrences_block [OF assms]
  by (simp add: header_facts occurrences_self)

lemma occurrences_after_newline:
  assumes "body \<noteq> []" "last body = LF \<or> last body = CR"
  shows "occurrences supernote_header_text (body @ b) =
         occurrences supernote_header_text body + occurrences supernote_header_text b"
proof -
  obtain t x where t: "body = t @ [x]" "x = LF \<or> x = CR"
    using assms by (metis append_butlast_last_id)
  then have x: "x \<notin> set supernote_header_text"
    using header_facts by auto
  show ?thesis
    using occurrences_barrier [OF header_facts(1) x, of t b]
          occurrences_snoc_barrier [OF header_facts(1) x, of t] t by simp
qed

lemma occurrences_LF_Cons:
  "occurrences supernote_header_text (LF # b) = occurrences supernote_header_text b"
  using occurrences_barrier [OF header_facts(1) header_facts(2), of "[]" b]
  by (simp add: header_facts)

lemma merge_entry_occurrences_complete:
  assumes f: "\<not> contains (strip m) supernote_header_text"
    and d: "header_at_most_once doc"
    and enc: "encodable (strip m)"
  shows "occurrences supernote_header_text (fst (merge_entry doc m)) = 1"
proof (cases doc)
  case None
  then show ?thesis
    using occurrences_header_line [OF f] by (simp add: merge_entry_text [OF enc])
next
  case (Some body)
  let ?H = supernote_header_text
  let ?c = "universal_newlines body"
  let ?B = "lstrip_newlines (entry_block m)"
  have cs: "contains ?c ?H \<longleftrightarrow> sublist ?H body"
    by (simp add: contains_def universal_newlines_sublist header_facts)
  show ?thesis
  proof (cases "contains ?c ?H")
    case False
    then have z: "occurrences ?H body = 0"
      by (simp add: cs occurrences_zero_iff)
    have r: "fst (merge_entry doc m) = body @ separator ?c @ ?H @ [LF] @ ?B"
      using False Some by (simp add: merge_entry_text [OF enc])
    consider (empty) "body = []"
      | (nl) "body \<noteq> []" "last body = LF \<or> last body = CR"
      | (other) "body \<noteq> []" "\<not> (last body = LF \<or> last body = CR)"
      by blast
    then show ?thesis
    proof cases
      case empty
      then show ?thesis
        using r occurrences_header_line [OF f] by (simp add: separator_eq)
    next
      case nl
      then have s: "separator ?c = [LF]"
        by (simp add: separator_eq universal_newlines_Nil universal_newlines_endswith_LF)
      have "occurrences ?H (body @ LF # ?H @ [LF] @ ?B) =
            occurrences ?H body + occurrences ?H (LF # ?H @ [LF] @ ?B)"
        by (rule occurrences_after_newline [OF nl])
      also have "\<dots> = occurrences ?H (?H @ [LF] @ ?B)"
        by (simp only: z occurrences_LF_Cons add_0)
      finally show ?thesis
        using occurrences_header_line [OF f] by (simp add: r s)
    next
      case other
      then have s: "separator ?c = [LF, LF]"
        by (simp add: separator_eq universal_newlines_Nil universal_newlines_endswith_LF)
      have "occurrences ?H (body @ LF # LF # ?H @ [LF] @ ?B) =
            occurrences ?H body + occurrences ?H (LF # ?H @ [LF] @ ?B)"
        by (rule occurrences_barrier [OF header_facts(1) header_facts(2)])
      also have "\<dots> = occurrences ?H (?H @ [LF] @ ?B)"
        by (simp only: z occurrences_LF_Cons add_0)
      finally show ?thesis
        using occurrences_header_line [OF f] by (simp add: r s)
    qed
  next
    case True
    then have "occurrences ?H body \<noteq> 0"
      by (simp add: cs occurrences_zero_iff)
    with d Some have one: "occurrences ?H body = 1"
      by (simp add: header_at_most_once_def)
    have ne: "body \<noteq> []"
      using True by (auto simp: contains_def header_facts)
    show ?thesis
    proof (cases "endswith ?c [LF]")
      case e: True
      then have l: "last body = LF \<or> last body = CR"
        by (simp add: universal_newlines_endswith_LF)
      have r: "fst (merge_entry doc m) = body @ ?B"
        using True e Some by (simp add: merge_entry_text [OF enc])
      show ?thesis
        using occurrences_after_newline [OF ne l, of ?B] occurrences_block [OF f] one
        by (simp add: r)
    next
      case e: False
      have r: "fst (merge_entry doc m) = body @ [LF] @ ?B"
        using True e Some ne by (simp add: merge_entry_text [OF enc] universal_newlines_Nil)
      show ?thesis
        using occurrences_barrier [OF header_facts(1) header_facts(2), of body ?B]
              occurrences_block [OF f] one
        by (simp add: r)
    qed
  qed
qed

lemma strip_Nil: "strip [] = []"
  by (simp add: strip_def)

lemma merge_entry_occurrences:
  assumes f: "\<not> contains (strip m) supernote_header_text"
    and d: "header_at_most_once doc"
  shows "occurrences supernote_header_text (fst (merge_entry doc m)) = 1"
proof (cases "encodable (strip m)")
  case True
  then show ?thesis by (rule merge_entry_occurrences_complete [OF f d])
next
  case False
  have "\<not> contains (strip []) supernote_header_text"
    by (simp add: strip_Nil contains_def header_facts)
  then have "occurrences supernote_header_text (fst (merge_entry doc [])) = 1"
    using d by (rule merge_entry_occurrences_complete) (simp add: strip_Nil)
  then show ?thesis
    by (simp add: merge_entry_raises [OF False])
qed

lemma merge_entry_endswith_block:
  assumes "encodable (strip m)"
  shows "endswith (fst (merge_entry doc m)) (lstrip_newlines (entry_block m))"
  by (cases doc) (auto simp: merge_entry_text [OF assms] endswith_def suffix_def)

section \<open>The merge keeps one header\<close>

lemma block_last:
  "lstrip_newlines (entry_block m) = [] \<or>
   lstrip_newlines (entry_block m) \<noteq> [] \<and> last (lstrip_newlines (entry_block m)) = LF"
  by (simp add: lstrip_entry_block)

lemma merge_entry_last_complete:
  assumes enc: "encodable (strip m)"
  shows "fst (merge_entry doc m) \<noteq> [] \<and>
     (last (fst (merge_entry doc m)) = LF \<or> last (fst (merge_entry doc m)) = CR)"
proof (cases doc)
  case None
  then show ?thesis
    using block_last [of m] by (auto simp: merge_entry_text [OF enc])
next
  case (Some body)
  let ?c = "universal_newlines body"
  show ?thesis
  proof (cases "contains ?c supernote_header_text")
    case False
    then show ?thesis
      using Some block_last [of m] by (auto simp: merge_entry_text [OF enc])
  next
    case True
    show ?thesis
    proof (cases "endswith ?c [LF]")
      case e: True
      then show ?thesis
        using Some True block_last [of m]
        by (auto simp: merge_entry_text [OF enc] universal_newlines_endswith_LF)
    next
      case e: False
      then show ?thesis
        using Some True block_last [of m]
        by (auto simp: merge_entry_text [OF enc] universal_newlines_Nil contains_def header_facts)
    qed
  qed
qed

lemma merge_entry_contains_complete:
  assumes enc: "encodable (strip m)"
  shows "sublist supernote_header_text (fst (merge_entry doc m))"
proof (cases doc)
  case None
  then show ?thesis
    by (simp add: merge_entry_text [OF enc] sublist_append_rightI)
next
  case (Some body)
  let ?H = supernote_header_text
  have cs: "contains (universal_newlines body) ?H \<longleftrightarrow> sublist ?H body"
    by (simp add: contains_def universal_newlines_sublist header_facts)
  show ?thesis
  proof (cases "sublist ?H body")
    case True
    then show ?thesis
      using Some cs by (simp add: merge_entry_text [OF enc] sublist_append)
  next
    case False
    have "sublist ?H ((body @ separator (universal_newlines body)) @ ?H
            @ ([LF] @ lstrip_newlines (entry_block m)))"
      by (rule sublist_appendI)
    then show ?thesis
      using Some cs False by (simp add: merge_entry_text [OF enc])
  qed
qed

text \<open>
  After a merge, whether its last write went through or not, the note has the header and
  ends with a line end: the next merge into it appends the entry and nothing else.
\<close>

lemma merge_entry_again:
  assumes "encodable (strip m')"
  shows "merge_entry (Some (fst (merge_entry doc m))) m' =
           (fst (merge_entry doc m) @ lstrip_newlines (entry_block m'), None)"
proof -
  let ?H = supernote_header_text
  let ?d = "fst (merge_entry doc m)"
  have "sublist ?H ?d \<and> ?d \<noteq> [] \<and> (last ?d = LF \<or> last ?d = CR)"
  proof (cases "encodable (strip m)")
    case True
    then show ?thesis
      using merge_entry_contains_complete merge_entry_last_complete by blast
  next
    case False
    have "encodable (strip [])" by (simp add: strip_Nil)
    then have "sublist ?H (fst (merge_entry doc [])) \<and> fst (merge_entry doc []) \<noteq> [] \<and>
        (last (fst (merge_entry doc [])) = LF \<or> last (fst (merge_entry doc [])) = CR)"
      using merge_entry_contains_complete merge_entry_last_complete by blast
    then show ?thesis
      by (simp add: merge_entry_raises [OF False])
  qed
  then have c: "contains (universal_newlines ?d) ?H"
    and e: "endswith (universal_newlines ?d) [LF]"
    by (simp_all add: contains_def universal_newlines_sublist header_facts
        universal_newlines_endswith_LF)
  show ?thesis
    using c e by (simp add: merge_entry_complete [OF assms])
qed

text \<open>
  C2 (amended): in all three cases (note absent, present without the header, present with
  the header), for every fragment whose trimmed text can be encoded, and so also for one
  that contains the header, the merge completes and the resulting note ends with the trimmed
  fragment followed by one newline (with nothing, when the trimmed fragment is empty). If
  the trimmed fragment does not contain the section header and the existing note holds the
  header at most once, the resulting note contains the header exactly once, whether the
  write of the fragment goes through or not.
\<close>

theorem merge_entry_header_once:
  "(encodable (strip m) \<longrightarrow>
      snd (merge_entry doc m) = None \<and>
      endswith (fst (merge_entry doc m)) (if strip m = [] then [] else strip m @ [LF])) \<and>
   (\<not> contains (strip m) supernote_header_text \<and> header_at_most_once doc \<longrightarrow>
      occurrences supernote_header_text (fst (merge_entry doc m)) = 1)"
proof -
  have "snd (merge_entry doc m) = None \<and>
      endswith (fst (merge_entry doc m)) (if strip m = [] then [] else strip m @ [LF])"
    if "encodable (strip m)"
    using merge_entry_endswith_block [OF that, of doc] merge_entry_complete [OF that, of doc]
    by (simp only: lstrip_entry_block snd_conv simp_thms)
  then show ?thesis
    using merge_entry_occurrences [of m doc] by blast
qed

theorem merge_entry_header_once_witness:
  "encodable (strip (ascii '' Hello '')) \<and>
   \<not> contains (strip (ascii '' Hello '')) supernote_header_text \<and>
   header_at_most_once (Some (ascii ''# Title'' @ [LF])) \<and>
   snd (merge_entry (Some (ascii ''# Title'' @ [LF])) (ascii '' Hello '')) = None \<and>
   occurrences supernote_header_text
     (fst (merge_entry (Some (ascii ''# Title'' @ [LF])) (ascii '' Hello ''))) = 1 \<and>
   endswith (fst (merge_entry (Some (ascii ''# Title'' @ [LF])) (ascii '' Hello '')))
     (ascii ''Hello'' @ [LF])"
proof -
  have e: "encodable (strip (ascii '' Hello ''))"
    by (simp add: ev)
  have a: "\<not> contains (strip (ascii '' Hello '')) supernote_header_text"
    by (simp add: ev)
  have b: "header_at_most_once (Some (ascii ''# Title'' @ [LF]))"
    by (simp add: header_at_most_once_def ev)
  have s: "strip (ascii '' Hello '') = ascii ''Hello''"
    by (simp add: ev)
  show ?thesis
    using e a b merge_entry_header_once [of "ascii '' Hello ''" "Some (ascii ''# Title'' @ [LF])"]
    by (simp add: ev)
qed

text \<open>
  C2, as stated, fails in both halves. A fragment that contains the header gives a second
  occurrence: merged into an absent note, the fragment that is the header text itself gives
  a note with two occurrences. A fragment that cannot be encoded, such as the single code
  point U+D800, is not written at all: the write raises and the new note holds the header
  line only, so it does not end with the fragment.
\<close>

theorem merge_entry_header_twice_counterexample:
  "contains (strip supernote_header_text) supernote_header_text \<and>
   occurrences supernote_header_text (fst (merge_entry None supernote_header_text)) = 2 \<and>
   merge_entry None [55296] = (supernote_header_text @ [LF], Some UnicodeEncodeError) \<and>
   \<not> endswith (supernote_header_text @ [LF]) (strip [55296])"
  by (simp add: merge_entry_def ev)

text \<open>
  C4 (amended): for a fragment whose trimmed text can be encoded, both merges complete, the
  first result ends with the fragment's block (the trimmed text and a newline) and the
  second result is the first followed by that block again, so both copies are present at the
  end in merge order. If moreover the trimmed fragment does not contain the section header
  and the note holds the header at most once before the first merge, the header occurs
  exactly once after the second.
\<close>

theorem merge_twice:
  "(encodable (strip m) \<longrightarrow>
      snd (merge_entry doc m) = None \<and>
      endswith (fst (merge_entry doc m)) (if strip m = [] then [] else strip m @ [LF]) \<and>
      merge_entry (Some (fst (merge_entry doc m))) m =
        (fst (merge_entry doc m) @ (if strip m = [] then [] else strip m @ [LF]), None)) \<and>
   (\<not> contains (strip m) supernote_header_text \<and> header_at_most_once doc \<longrightarrow>
      occurrences supernote_header_text
        (fst (merge_entry (Some (fst (merge_entry doc m))) m)) = 1)"
proof -
  let ?H = supernote_header_text
  let ?d = "fst (merge_entry doc m)"
  have first: "snd (merge_entry doc m) = None \<and>
      endswith ?d (if strip m = [] then [] else strip m @ [LF]) \<and>
      merge_entry (Some ?d) m = (?d @ (if strip m = [] then [] else strip m @ [LF]), None)"
    if enc: "encodable (strip m)"
    using merge_entry_endswith_block [OF enc, of doc] merge_entry_complete [OF enc, of doc]
          merge_entry_again [OF enc, of doc m]
    by (simp only: lstrip_entry_block snd_conv simp_thms)
  have second: "occurrences ?H (fst (merge_entry (Some ?d) m)) = 1"
    if f: "\<not> contains (strip m) ?H" and d: "header_at_most_once doc"
  proof -
    have "occurrences ?H ?d = 1"
      by (rule merge_entry_occurrences [OF f d])
    then have "header_at_most_once (Some ?d)"
      by (simp add: header_at_most_once_def)
    then show ?thesis
      by (rule merge_entry_occurrences [OF f])
  qed
  show ?thesis
    using first second by blast
qed

theorem merge_twice_witness:
  "encodable (strip (ascii ''Hello'')) \<and>
   \<not> contains (strip (ascii ''Hello'')) supernote_header_text \<and>
   header_at_most_once None \<and>
   merge_entry (Some (fst (merge_entry None (ascii ''Hello'')))) (ascii ''Hello'') =
     (supernote_header_text @ [LF] @ ascii ''Hello'' @ [LF] @ ascii ''Hello'' @ [LF], None) \<and>
   occurrences supernote_header_text
     (fst (merge_entry (Some (fst (merge_entry None (ascii ''Hello'')))) (ascii ''Hello''))) = 1"
proof -
  have e: "encodable (strip (ascii ''Hello''))"
    by (simp add: ev)
  have a: "\<not> contains (strip (ascii ''Hello'')) supernote_header_text"
    by (simp add: ev)
  have b: "header_at_most_once None"
    by (simp add: header_at_most_once_def)
  have s: "strip (ascii ''Hello'') = ascii ''Hello''"
    by (simp add: ev)
  have d: "fst (merge_entry None (ascii ''Hello'')) =
      supernote_header_text @ [LF] @ ascii ''Hello'' @ [LF]"
    by (simp add: merge_entry_def ev)
  show ?thesis
    using e a b merge_twice [of "ascii ''Hello''" None]
    by (simp add: ev merge_entry_def)
qed

text \<open>
  C4, as stated, fails for a fragment that cannot be encoded, although it does not contain
  the header: merging the code point U+D800 twice into an absent note raises both times at
  the write of the fragment, and the note holds the header line and no copy of the fragment.
\<close>

theorem merge_twice_unwritten_counterexample:
  "\<not> contains (strip [55296]) supernote_header_text \<and> header_at_most_once None \<and>
   merge_entry None [55296] = (supernote_header_text @ [LF], Some UnicodeEncodeError) \<and>
   merge_entry (Some (supernote_header_text @ [LF])) [55296] =
     (supernote_header_text @ [LF], Some UnicodeEncodeError) \<and>
   \<not> contains (supernote_header_text @ [LF]) (strip [55296])"
  by (simp add: merge_entry_def header_at_most_once_def ev)

section \<open>Loading the processed-files log\<close>

lemma add_lines_eq: "add_lines ls acc = strip ` set ls \<union> acc"
  unfolding add_lines_def by (induction ls arbitrary: acc) auto

text \<open>
  C7, as stated, fails: a blank line of the log does contribute an element, the empty name.
\<close>

theorem load_processed_files_blank_line_counterexample:
  "load_processed_files (Holds (ascii ''a'' @ [LF, LF])) = {ascii ''a'', []} \<and>
   spec_load (ascii ''a'' @ [LF, LF]) = {ascii ''a''}"
  by (simp add: load_processed_files_def spec_load_def file_lines_def add_lines_def ev
      insert_commute)

lemma split_empty_name: "A = {n \<in> A. n \<noteq> []} \<union> (if [] \<in> A then {[]} else {})"
  by auto

text \<open>
  C7 (amended): loading the log gives the trimmed lines of the file: the trimmed non-empty
  lines and, when some line is blank, the empty name as well. A missing log file gives the
  empty set, not an error.
\<close>

theorem load_processed_files_lines:
  "load_processed_files NotFound = {} \<and>
   load_processed_files (Holds content) =
     spec_load content \<union> (if has_blank_line content then {[]} else {})"
proof -
  have "strip ` set (file_lines content) =
        {n \<in> strip ` set (file_lines content). n \<noteq> []} \<union>
        (if [] \<in> strip ` set (file_lines content) then {[]} else {})"
    by (rule split_empty_name)
  moreover have "[] \<in> strip ` set (file_lines content) \<longleftrightarrow> has_blank_line content"
    by (force simp: has_blank_line_def list_ex_iff)
  ultimately show ?thesis
    by (simp add: load_processed_files_def spec_load_def add_lines_eq)
qed

section \<open>The scanner\<close>

lemmas scan_ev = is_digit_def match_digits_def match_literal_def note_match_def
  all_note_files_in_dir_def files_to_process_def spec_full_match_def

text \<open>
  C3: the scanner should take a name only if it matches the anchored pattern exactly. The
  code does not: a regular file whose name continues after \<open>.note\<close> is enumerated as work,
  although it does not match the anchored pattern.
\<close>

theorem scanner_accepts_trailing_characters:
  "files_to_process nd [(ascii ''20240101_120000.note.bak'', True)] {} =
     [ascii ''20240101_120000.note.bak''] \<and>
   \<not> spec_full_match nd (ascii ''20240101_120000.note.bak'')"
  by (simp add: scan_ev ascii_def)

section \<open>The response check\<close>

lemma bind_exc_simps [simp]:
  "bind_exc (Inr v) f = f v" "bind_exc (Inl e) f = Inl e"
  by (simp_all add: bind_exc_def)





section \<open>One file\<close>

lemma log_event_fields [simp]:
  "daily_notes (log_event e st) = daily_notes st"
  "processed_log (log_event e st) = processed_log st"
  "already_processed_files (log_event e st) = already_processed_files st"
  "processed_dates_for_commit (log_event e st) = processed_dates_for_commit st"
  "any_file_processed_successfully_this_run (log_event e st) =
     any_file_processed_successfully_this_run st"
  "newly_processed_count (log_event e st) = newly_processed_count st"
  "trace (log_event e st) = trace st @ [e]"
  by (simp_all add: log_event_def)

lemma add_to_processed_log_eq:
  "add_to_processed_log env f st =
     (log_takes env f,
      st\<lparr>processed_log :=
            (if log_append env f
             then Some (log_text (processed_log st) @ (if encodable f then f @ [LF] else []))
             else processed_log st),
          trace := trace st @ [if log_takes env f then LedgerAdded f else LedgerWriteFailed f]\<rparr>)"
  by (simp add: add_to_processed_log_def log_takes_def log_text_def log_event_def)

text \<open>The three ways \<open>write_and_record\<close> ends.\<close>

lemma write_and_record_closed:
  assumes "open_note env (day @ ascii ''.md'') = Some e"
  shows "write_and_record env f day s st = Inl (e, st)"
  using assms by (simp add: write_and_record_def)

lemma write_and_record_raises:
  assumes "open_note env (day @ ascii ''.md'') = None" and "\<not> encodable (strip s)"
  shows "write_and_record env f day s st =
     Inl (UnicodeEncodeError,
          st\<lparr>daily_notes := (daily_notes st)(day @ ascii ''.md'' \<mapsto>
                 fst (merge_entry (daily_notes st (day @ ascii ''.md'')) s))\<rparr>)"
  using assms(1) merge_entry_raises [OF assms(2)]
  by (simp add: write_and_record_def Let_def)

lemma write_and_record_done:
  assumes "open_note env (day @ ascii ''.md'') = None" and "encodable (strip s)"
  shows "write_and_record env f day s st =
     Inr (st
      \<lparr>daily_notes := (daily_notes st)(day @ ascii ''.md'' \<mapsto>
                        fst (merge_entry (daily_notes st (day @ ascii ''.md'')) s)),
       processed_log :=
         (if log_append env f
          then Some (log_text (processed_log st) @ (if encodable f then f @ [LF] else []))
          else processed_log st),
       already_processed_files :=
         (if log_takes env f then insert f (already_processed_files st)
          else already_processed_files st),
       processed_dates_for_commit := insert day (processed_dates_for_commit st),
       any_file_processed_successfully_this_run := True,
       newly_processed_count := newly_processed_count st + 1,
       trace := trace st
         @ [NoteWritten (merge_case_of (daily_notes st (day @ ascii ''.md''))) (day @ ascii ''.md'')]
         @ (if log_takes env f then [LedgerAdded f] else [LedgerWriteFailed f, CriticalWarning f])
         @ [ItemSucceeded f]\<rparr>)"
  using assms(1) merge_entry_complete [OF assms(2)]
  by (simp add: write_and_record_def Let_def add_to_processed_log_eq log_event_def)

text \<open>
  Where the body of the \<open>try\<close> ends: before the merge, with the messages printed so far, when
  the file has no date or no recognized text; in \<open>write_and_record\<close> otherwise.
\<close>

lemma try_item_stages:
  "(item_day env f = None \<or> recognized_text env f = None) \<and>
     (try_item env f st = Inr st \<and> note_match (decimal_table env) f = None \<or>
      (\<exists>e. try_item env f st = Inl (e, st)) \<or>
      (\<exists>e. try_item env f st = Inl (e, log_event (ConversionDone f) st)) \<or>
      (\<exists>e. try_item env f st =
         Inl (e, log_event (InvalidResponse f) (log_event (ConversionDone f) st))) \<or>
      (\<exists>e. try_item env f st =
         Inl (e, log_event (TextExtracted f) (log_event (ConversionDone f) st)))) \<or>
   (\<exists>day s. item_day env f = Some day \<and> recognized_text env f = Some s \<and>
      try_item env f st =
        write_and_record env f day s
          (log_event (TextExtracted f) (log_event (ConversionDone f) st)))"
  by (auto simp: try_item_def item_day_def recognized_text_def Let_def
      split: option.splits sum.splits prod.splits bool.splits json.splits)

lemma item_succeeds_iff:
  "item_succeeds env f \<longleftrightarrow>
     (\<exists>day s. item_day env f = Some day \<and> recognized_text env f = Some s \<and>
        open_note env (day @ ascii ''.md'') = None \<and> encodable (strip s))"
  by (auto simp: item_succeeds_def split: option.splits)

text \<open>A file that succeeds: the state after it, written out.\<close>

lemma process_item_ok:
  assumes "item_day env f = Some day" and "recognized_text env f = Some s"
    and "open_note env (day @ ascii ''.md'') = None" and "encodable (strip s)"
  shows "process_item env f st = st
      \<lparr>daily_notes := (daily_notes st)(day @ ascii ''.md'' \<mapsto>
                        fst (merge_entry (daily_notes st (day @ ascii ''.md'')) s)),
       processed_log :=
         (if log_append env f
          then Some (log_text (processed_log st) @ (if encodable f then f @ [LF] else []))
          else processed_log st),
       already_processed_files :=
         (if log_takes env f then insert f (already_processed_files st)
          else already_processed_files st),
       processed_dates_for_commit := insert day (processed_dates_for_commit st),
       any_file_processed_successfully_this_run := True,
       newly_processed_count := newly_processed_count st + 1,
       trace := trace st
         @ [ConversionDone f, TextExtracted f,
            NoteWritten (merge_case_of (daily_notes st (day @ ascii ''.md''))) (day @ ascii ''.md'')]
         @ (if log_takes env f then [LedgerAdded f] else [LedgerWriteFailed f, CriticalWarning f])
         @ [ItemSucceeded f]\<rparr>"
proof -
  have "try_item env f st =
      write_and_record env f day s
        (log_event (TextExtracted f) (log_event (ConversionDone f) st))"
    using try_item_stages [of env f st] assms(1,2) by auto
  then show ?thesis
    by (simp add: process_item_def write_and_record_done [OF assms(3,4)] log_event_def)
qed

text \<open>
  A file that does not succeed: nothing changes but the messages and, when the merge was
  reached, the daily note.
\<close>

lemma process_item_not_ok:
  assumes "\<not> item_succeeds env f"
  shows "\<exists>evs. process_item env f st =
           st\<lparr>daily_notes := notes_after env f (daily_notes st), trace := trace st @ evs\<rparr> \<and>
           (\<forall>ev\<in>set evs. ev \<in> {ConversionDone f, InvalidResponse f, TextExtracted f} \<or>
                           (\<exists>c. ev = ItemFailed f c))"
proof -
  let ?st2 = "log_event (TextExtracted f) (log_event (ConversionDone f) st)"
  let ?P = "\<lambda>evs. process_item env f st =
           st\<lparr>daily_notes := notes_after env f (daily_notes st), trace := trace st @ evs\<rparr>"
  consider (skip) "item_day env f = None \<or> recognized_text env f = None"
        "try_item env f st = Inr st"
    | (f0) e where "item_day env f = None \<or> recognized_text env f = None"
        "try_item env f st = Inl (e, st)"
    | (f1) e where "item_day env f = None \<or> recognized_text env f = None"
        "try_item env f st = Inl (e, log_event (ConversionDone f) st)"
    | (f2) e where "item_day env f = None \<or> recognized_text env f = None"
        "try_item env f st =
           Inl (e, log_event (InvalidResponse f) (log_event (ConversionDone f) st))"
    | (f3) e where "item_day env f = None \<or> recognized_text env f = None"
        "try_item env f st = Inl (e, ?st2)"
    | (w) day s where "item_day env f = Some day" "recognized_text env f = Some s"
        "try_item env f st = write_and_record env f day s ?st2"
    using try_item_stages [of env f st] by (elim disjE conjE exE) blast+
  then show ?thesis
  proof cases
    case skip
    from skip(1) have n: "notes_after env f (daily_notes st) = daily_notes st"
      by (auto simp: notes_after_def split: option.splits)
    have "?P []"
      using skip(2) by (simp add: process_item_def n)
    then show ?thesis by fastforce
  next
    case f0
    from f0(1) have n: "notes_after env f (daily_notes st) = daily_notes st"
      by (auto simp: notes_after_def split: option.splits)
    have "?P [ItemFailed f (classify e)]"
      using f0(2) by (simp add: process_item_def log_event_def n)
    then show ?thesis by fastforce
  next
    case f1
    from f1(1) have n: "notes_after env f (daily_notes st) = daily_notes st"
      by (auto simp: notes_after_def split: option.splits)
    have "?P [ConversionDone f, ItemFailed f (classify e)]"
      using f1(2) by (simp add: process_item_def log_event_def n)
    then show ?thesis by fastforce
  next
    case f2
    from f2(1) have n: "notes_after env f (daily_notes st) = daily_notes st"
      by (auto simp: notes_after_def split: option.splits)
    have "?P [ConversionDone f, InvalidResponse f, ItemFailed f (classify e)]"
      using f2(2) by (simp add: process_item_def log_event_def n)
    then show ?thesis by fastforce
  next
    case f3
    from f3(1) have n: "notes_after env f (daily_notes st) = daily_notes st"
      by (auto simp: notes_after_def split: option.splits)
    have "?P [ConversionDone f, TextExtracted f, ItemFailed f (classify e)]"
      using f3(2) by (simp add: process_item_def log_event_def n)
    then show ?thesis by fastforce
  next
    case w
    show ?thesis
    proof (cases "open_note env (day @ ascii ''.md'')")
      case (Some e)
      have n: "notes_after env f (daily_notes st) = daily_notes st"
        using w(1,2) Some by (simp add: notes_after_def)
      have "?P [ConversionDone f, TextExtracted f, ItemFailed f (classify e)]"
        using w(3) by (simp add: process_item_def write_and_record_closed [OF Some]
            log_event_def n)
      then show ?thesis by fastforce
    next
      case None
      then have enc: "\<not> encodable (strip s)"
        using assms w(1,2) by (simp add: item_succeeds_def)
      have n: "notes_after env f (daily_notes st) =
          (daily_notes st)(day @ ascii ''.md'' \<mapsto>
             fst (merge_entry (daily_notes st (day @ ascii ''.md'')) s))"
        using w(1,2) None by (simp add: notes_after_def)
      have "?P [ConversionDone f, TextExtracted f, ItemFailed f ParseFailed]"
        using w(3) by (simp add: process_item_def write_and_record_raises [OF None enc]
            log_event_def n)
      then show ?thesis by fastforce
    qed
  qed
qed

lemma touched_dates_Nil [simp]: "touched_dates env [] = {}"
  by (simp add: touched_dates_def)

lemma touched_dates_Cons:
  "touched_dates env (f # fs) =
     (if item_succeeds env f then (case item_day env f of None \<Rightarrow> {} | Some day \<Rightarrow> {day})
      else {}) \<union> touched_dates env fs"
  by (auto simp: touched_dates_def split: option.splits)

text \<open>
  What a file does to the files and variables, whatever its outcome: a function of the
  world and of the files and variables before it.
\<close>

lemma process_item_variables:
  "files_and_variables (process_item env f st) =
     (notes_after env f (daily_notes st),
      (if item_succeeds env f \<and> log_append env f
       then Some (log_text (processed_log st) @ (if encodable f then f @ [LF] else []))
       else processed_log st),
      (if item_succeeds env f \<and> log_takes env f then insert f (already_processed_files st)
       else already_processed_files st),
      processed_dates_for_commit st \<union> touched_dates env [f],
      (any_file_processed_successfully_this_run st \<or> item_succeeds env f),
      newly_processed_count st + (if item_succeeds env f then 1 else 0))"
proof (cases "item_succeeds env f")
  case True
  then obtain day s where h: "item_day env f = Some day" "recognized_text env f = Some s"
      "open_note env (day @ ascii ''.md'') = None" "encodable (strip s)"
    using item_succeeds_iff by blast
  have n: "notes_after env f (daily_notes st) =
      (daily_notes st)(day @ ascii ''.md'' \<mapsto>
         fst (merge_entry (daily_notes st (day @ ascii ''.md'')) s))"
    using h by (simp add: notes_after_def)
  show ?thesis
    using True h(1)
    by (simp add: process_item_ok [OF h] files_and_variables_def n touched_dates_Cons)
next
  case False
  obtain evs where "process_item env f st =
      st\<lparr>daily_notes := notes_after env f (daily_notes st), trace := trace st @ evs\<rparr>"
    using process_item_not_ok [OF False] by blast
  then show ?thesis
    using False by (simp add: files_and_variables_def touched_dates_Cons)
qed

section \<open>The loop over the files\<close>

lemma process_item_fields:
  "daily_notes (process_item env f st) = notes_after env f (daily_notes st)"
  "processed_log (process_item env f st) =
     (if item_succeeds env f \<and> log_append env f
      then Some (log_text (processed_log st) @ (if encodable f then f @ [LF] else []))
      else processed_log st)"
  "already_processed_files (process_item env f st) =
     (if item_succeeds env f \<and> log_takes env f then insert f (already_processed_files st)
      else already_processed_files st)"
  "processed_dates_for_commit (process_item env f st) =
     processed_dates_for_commit st \<union> touched_dates env [f]"
  "any_file_processed_successfully_this_run (process_item env f st) \<longleftrightarrow>
     any_file_processed_successfully_this_run st \<or> item_succeeds env f"
  "newly_processed_count (process_item env f st) =
     newly_processed_count st + (if item_succeeds env f then 1 else 0)"
  using process_item_variables [of env f st]
  by (simp_all add: files_and_variables_def)

lemma touched_dates_single:
  "touched_dates env (f # fs) = touched_dates env [f] \<union> touched_dates env fs"
  by (simp add: touched_dates_Cons [of env f fs] touched_dates_Cons [of env f "[]"])

lemma process_files_count:
  "newly_processed_count (process_files env fs st) =
     newly_processed_count st + length (filter (item_succeeds env) fs)"
  by (induction fs arbitrary: st) (simp_all add: process_item_fields)

lemma process_files_any:
  "any_file_processed_successfully_this_run (process_files env fs st) \<longleftrightarrow>
     any_file_processed_successfully_this_run st \<or> filter (item_succeeds env) fs \<noteq> []"
  by (induction fs arbitrary: st) (simp_all add: process_item_fields)

lemma process_files_dates:
  "processed_dates_for_commit (process_files env fs st) =
     processed_dates_for_commit st \<union> touched_dates env fs"
proof (induction fs arbitrary: st)
  case Nil
  then show ?case by simp
next
  case (Cons f fs)
  show ?case
    using Cons.IH [of "process_item env f st"] touched_dates_single [of env f fs]
    by (simp add: process_item_fields(4) Un_assoc)
qed




section \<open>The run\<close>

lemma git_operations_eq:
  "git_operations env st =
     st\<lparr>trace := trace st @ git_steps env (commit_message_of (processed_dates_for_commit st))\<rparr>"
  by (simp add: git_operations_def git_steps_def log_event_def Let_def split: option.splits)

lemma item_succeeds_day: "item_succeeds env f \<Longrightarrow> item_day env f \<noteq> None"
  by (auto simp: item_succeeds_def split: option.splits)

lemma touched_dates_empty:
  "touched_dates env fs = {} \<longleftrightarrow> filter (item_succeeds env) fs = []"
  by (induction fs) (auto simp: touched_dates_Cons dest: item_succeeds_day split: option.splits)

lemma after_loop_fields:
  "processed_dates_for_commit (after_loop env st0) = touched_dates env (work_items env st0)"
  "any_file_processed_successfully_this_run (after_loop env st0) \<longleftrightarrow>
     filter (item_succeeds env) (work_items env st0) \<noteq> []"
  "newly_processed_count (after_loop env st0) =
     length (filter (item_succeeds env) (work_items env st0))"
  by (simp_all add: after_loop_def process_files_dates process_files_any process_files_count)

text \<open>
  The run written out, when the credential is there, the input directory exists and there
  is something to process.
\<close>

lemma script_run:
  assumes "\<not> credential_missing env" and "input_dir env \<noteq> None"
    and "work_items env st0 \<noteq> []"
  shows "script env st0 =
     (let st3 = (if touched_dates env (work_items env st0) \<noteq> {}
                 then git_operations env (after_loop env st0)
                 else log_event NothingProcessed (after_loop env st0))
      in if filter (item_succeeds env) (work_items env st0) = []
         then (1, log_event FinishedWithErrors st3)
         else if length (filter (item_succeeds env) (work_items env st0))
                   < length (work_items env st0)
         then (0, log_event PartialSuccess st3)
         else (0, log_event FinishedOk st3))"
proof -
  obtain key_text where k: "api_key_file env = Some key_text"
      "strip (universal_newlines key_text) \<noteq> []"
    using assms(1) by (auto simp: credential_missing_def split: option.splits)
  obtain entries where e: "input_dir env = Some entries"
    using assms(2) by auto
  have w: "files_to_process (decimal_table env) entries
             (load_processed_files (read_log env st0)) = work_items env st0"
    using e by (simp add: work_items_def)
  have m: "script env st0 = main env st0"
    using k by (simp add: script_def)
  show ?thesis
    unfolding m main_def
    using assms(3) after_loop_fields [of env st0]
    by (simp add: e w Let_def git_operations_eq touched_dates_empty
        after_loop_def [symmetric])
qed

lemma script_fatal:
  "credential_missing env \<or> input_dir env = None \<Longrightarrow> fst (script env st0) = 1"
  by (auto simp: script_def main_def credential_missing_def Let_def split: option.splits)

lemma script_nothing_to_do:
  assumes "\<not> credential_missing env" and "input_dir env \<noteq> None"
    and "work_items env st0 = []"
  shows "script env st0 =
     (0, log_event NothingToDo
           (st0\<lparr>already_processed_files := load_processed_files (read_log env st0)\<rparr>))"
  using assms
  by (auto simp: script_def main_def credential_missing_def work_items_def Let_def
      split: option.splits)

section \<open>The sample world\<close>

lemma sample_match:
  "note_match (\<lambda>c. False) sample_file = Some (ascii ''20240101'', ascii ''120000'')"
  by (simp add: sample_file_def scan_ev ascii_def)

lemma sample_day: "item_day sample_env sample_file = Some (ascii ''2024-01-01'')"
  by (simp add: item_day_def sample_env_def sample_match) (simp add: ascii_def)

lemma sample_reply_text:
  "fragment \<noteq> [] \<Longrightarrow> response_invalid (sample_reply fragment) = Inr False"
  "markdown_content_of (sample_reply fragment) = Inr (JStr fragment)"
  by (simp_all add: sample_reply_def response_invalid_def markdown_content_of_def
      candidate0_def content0_def part0_def ascii_def)

lemma sample_text: "recognized_text sample_env sample_file = Some (ascii ''Hello'')"
proof -
  have "ascii ''Hello'' \<noteq> []" by (simp add: ascii_def)
  then show ?thesis
    by (simp add: recognized_text_def sample_env_def sample_reply_text)
qed

lemma sample_succeeds: "item_succeeds sample_env sample_file"
  by (simp add: item_succeeds_def sample_day sample_text) (simp add: sample_env_def ev)

lemma sample_work: "work_items sample_env (initial ns None) = [sample_file]"
  by (simp add: work_items_def sample_env_def initial_def read_log_def load_processed_files_def
      files_to_process_def all_note_files_in_dir_def sample_match)

lemma sample_credential: "\<not> credential_missing sample_env"
  by (simp add: credential_missing_def sample_env_def ev)

section \<open>Failure of one file\<close>





section \<open>The exit status\<close>

text \<open>
  Claim C6. The exit status is 1 exactly when the credential file is missing or empty, when
  the input directory is missing, or when there were files to process and none of them
  succeeded; it is 0 otherwise: when there is nothing to process and when some or all of the
  files succeed. Whether a file succeeds is decided by the world (\<open>item_succeeds\<close>): the run
  counts exactly the files to process that succeed, and its closing message tells failure
  of all of them, partial success and full success apart.
\<close>

theorem exit_code:
  "fst (script env st0) =
     (if credential_missing env \<or> input_dir env = None \<or>
         (work_items env st0 \<noteq> [] \<and> filter (item_succeeds env) (work_items env st0) = [])
      then 1 else 0) \<and>
   (\<not> credential_missing env \<and> input_dir env \<noteq> None \<and> work_items env st0 \<noteq> [] \<longrightarrow>
      newly_processed_count (snd (script env st0)) =
        length (filter (item_succeeds env) (work_items env st0)) \<and>
      last (trace (snd (script env st0))) =
        (if filter (item_succeeds env) (work_items env st0) = [] then FinishedWithErrors
         else if length (filter (item_succeeds env) (work_items env st0))
                   < length (work_items env st0)
         then PartialSuccess else FinishedOk))"
proof (cases "credential_missing env \<or> input_dir env = None")
  case True
  then show ?thesis
    using script_fatal [OF True, of st0] by auto
next
  case False
  then have ok: "\<not> credential_missing env" "input_dir env \<noteq> None"
    by simp_all
  show ?thesis
  proof (cases "work_items env st0 = []")
    case True
    then show ?thesis
      using ok by (simp add: script_nothing_to_do [OF ok True])
  next
    case w: False
    show ?thesis
      using ok w
      by (simp add: script_run [OF ok w] Let_def git_operations_eq after_loop_fields)
  qed
qed

theorem exit_code_witness:
  "\<not> credential_missing sample_env \<and> input_dir sample_env \<noteq> None \<and>
   work_items sample_env (initial Map.empty None) = [sample_file] \<and>
   item_succeeds sample_env sample_file \<and>
   fst (script sample_env (initial Map.empty None)) = 0 \<and>
   newly_processed_count (snd (script sample_env (initial Map.empty None))) = 1 \<and>
   last (trace (snd (script sample_env (initial Map.empty None)))) = FinishedOk"
proof -
  have d: "input_dir sample_env \<noteq> None"
    by (simp add: sample_env_def)
  show ?thesis
    using exit_code [of sample_env "initial Map.empty None"] sample_credential d
      sample_work [of Map.empty] sample_succeeds
    by simp
qed

section \<open>The messages of a run\<close>

lemma git_commands_append [simp]:
  "git_commands (xs @ ys) = git_commands xs @ git_commands ys"
  by (simp add: git_commands_def)

lemma git_commands_Nil [simp]: "git_commands [] = []"
  by (simp add: git_commands_def)

lemma git_commands_Cons:
  "git_commands (ev # evs) = (case ev of GitRun c \<Rightarrow> [c] | _ \<Rightarrow> []) @ git_commands evs"
  by (simp add: git_commands_def)

lemma ledger_names_append [simp]:
  "ledger_names (xs @ ys) = ledger_names xs @ ledger_names ys"
  by (simp add: ledger_names_def)

lemma ledger_names_Nil [simp]: "ledger_names [] = []"
  by (simp add: ledger_names_def)

lemma ledger_names_Cons:
  "ledger_names (ev # evs) = (case ev of LedgerAdded g \<Rightarrow> [g] | _ \<Rightarrow> []) @ ledger_names evs"
  by (simp add: ledger_names_def)

lemma failure_messages_all:
  "(\<forall>ev\<in>set evs. ev = ConversionDone f \<or> ev = InvalidResponse f \<or> ev = TextExtracted f \<or>
                   (\<exists>c. ev = ItemFailed f c)) \<Longrightarrow>
   git_commands evs = [] \<and> ledger_names evs = [] \<and> LedgerAdded g \<notin> set evs"
proof (induction evs)
  case Nil
  then show ?case by simp
next
  case (Cons ev evs)
  then have tl: "git_commands evs = [] \<and> ledger_names evs = [] \<and> LedgerAdded g \<notin> set evs"
    by simp
  have "ev = ConversionDone f \<or> ev = InvalidResponse f \<or> ev = TextExtracted f \<or>
      (\<exists>c. ev = ItemFailed f c)"
    using Cons.prems by simp
  then show ?case
    using tl by (elim disjE exE) (simp_all add: git_commands_Cons ledger_names_Cons)
qed

lemma failure_messages:
  assumes "\<forall>ev\<in>set evs. ev \<in> {ConversionDone f, InvalidResponse f, TextExtracted f} \<or>
                          (\<exists>c. ev = ItemFailed f c)"
  shows "git_commands evs = []" and "ledger_names evs = []"
    and "LedgerAdded g \<notin> set evs"
proof -
  have "\<forall>ev\<in>set evs. ev = ConversionDone f \<or> ev = InvalidResponse f \<or> ev = TextExtracted f \<or>
                   (\<exists>c. ev = ItemFailed f c)"
    using assms by blast
  then show "git_commands evs = []" and "ledger_names evs = []"
    and "LedgerAdded g \<notin> set evs"
    using failure_messages_all [of evs f g] by simp_all
qed

text \<open>
  What one file adds to the trace holds no command of version control, and reports an
  addition to the log exactly when the file succeeds and the log takes its name.
\<close>

lemma process_item_messages:
  "\<exists>evs. trace (process_item env f st) = trace st @ evs \<and> git_commands evs = [] \<and>
         ledger_names evs = (if item_succeeds env f \<and> log_takes env f then [f] else [])"
proof (cases "item_succeeds env f")
  case True
  then obtain day s where h: "item_day env f = Some day" "recognized_text env f = Some s"
      "open_note env (day @ ascii ''.md'') = None" "encodable (strip s)"
    using item_succeeds_iff by blast
  show ?thesis
    using True
    by (simp add: process_item_ok [OF h] git_commands_Cons ledger_names_Cons)
next
  case False
  obtain evs where e: "process_item env f st =
      st\<lparr>daily_notes := notes_after env f (daily_notes st), trace := trace st @ evs\<rparr>"
    "\<forall>ev\<in>set evs. ev \<in> {ConversionDone f, InvalidResponse f, TextExtracted f} \<or>
                    (\<exists>c. ev = ItemFailed f c)"
    using process_item_not_ok [OF False] by blast
  have "trace (process_item env f st) = trace st @ evs \<and> git_commands evs = [] \<and>
      ledger_names evs = (if item_succeeds env f \<and> log_takes env f then [f] else [])"
    using False failure_messages(1,2) [OF e(2)] by (simp add: e(1))
  then show ?thesis by blast
qed

lemma process_files_messages:
  "\<exists>evs. trace (process_files env fs st) = trace st @ evs \<and> git_commands evs = [] \<and>
         ledger_names evs = filter (\<lambda>f. item_succeeds env f \<and> log_takes env f) fs"
proof (induction fs arbitrary: st)
  case Nil
  then show ?case by simp
next
  case (Cons f fs)
  obtain a where a: "trace (process_item env f st) = trace st @ a" "git_commands a = []"
      "ledger_names a = (if item_succeeds env f \<and> log_takes env f then [f] else [])"
    using process_item_messages by blast
  obtain b where b: "trace (process_files env fs (process_item env f st)) =
      trace (process_item env f st) @ b" "git_commands b = []"
      "ledger_names b = filter (\<lambda>f. item_succeeds env f \<and> log_takes env f) fs"
    using Cons.IH by blast
  have "trace (process_files env (f # fs) st) = trace st @ (a @ b) \<and>
      git_commands (a @ b) = [] \<and>
      ledger_names (a @ b) = filter (\<lambda>f. item_succeeds env f \<and> log_takes env f) (f # fs)"
    using a b by simp
  then show ?case by blast
qed

text \<open>The text of the log grows by the names that the log takes, one line each.\<close>

lemma process_item_log_text:
  "log_text (processed_log (process_item env f st)) =
     log_text (processed_log st) @
     (if item_succeeds env f \<and> log_takes env f then f @ [LF] else [])"
  by (simp add: process_item_fields(2) log_text_def log_takes_def)

lemma process_files_log_text:
  "log_text (processed_log (process_files env fs st)) =
     log_text (processed_log st) @
     concat (map (\<lambda>f. f @ [LF]) (filter (\<lambda>f. item_succeeds env f \<and> log_takes env f) fs))"
  by (induction fs arbitrary: st) (simp_all add: process_item_log_text)

text \<open>The final state of a run, written out over the state at the end of the loop.\<close>

lemma script_state:
  assumes "\<not> credential_missing env" and "input_dir env \<noteq> None"
    and "work_items env st0 \<noteq> []"
  shows "snd (script env st0) =
     (after_loop env st0)\<lparr>trace := trace (after_loop env st0)
        @ (if touched_dates env (work_items env st0) \<noteq> {}
           then git_steps env (commit_message_of (touched_dates env (work_items env st0)))
           else [NothingProcessed])
        @ [if filter (item_succeeds env) (work_items env st0) = [] then FinishedWithErrors
           else if length (filter (item_succeeds env) (work_items env st0))
                     < length (work_items env st0)
           then PartialSuccess else FinishedOk]\<rparr>"
  by (simp add: script_run [OF assms] Let_def git_operations_eq after_loop_fields log_event_def)

lemma script_state_short:
  assumes "credential_missing env \<or> input_dir env = None \<or> work_items env st0 = []"
  shows "\<exists>e st. snd (script env st0) = st\<lparr>trace := trace st0 @ [e]\<rparr> \<and>
           processed_log st = processed_log st0 \<and>
           processed_dates_for_commit st = processed_dates_for_commit st0 \<and>
           e \<in> {MissingKeyFile, EmptyKey, MissingInputDir, NothingToDo}"
proof -
  consider (nokey) "api_key_file env = None"
    | (empty) k where "api_key_file env = Some k" "strip (universal_newlines k) = []"
    | (nodir) k where "api_key_file env = Some k" "strip (universal_newlines k) \<noteq> []"
        "input_dir env = None"
    | (idle) "\<not> credential_missing env" "input_dir env \<noteq> None" "work_items env st0 = []"
    using assms by (auto simp: credential_missing_def split: option.splits)
  then show ?thesis
  proof cases
    case nokey
    then have "snd (script env st0) = st0\<lparr>trace := trace st0 @ [MissingKeyFile]\<rparr>"
      by (simp add: script_def log_event_def)
    then show ?thesis by fastforce
  next
    case empty
    then have "snd (script env st0) = st0\<lparr>trace := trace st0 @ [EmptyKey]\<rparr>"
      by (simp add: script_def log_event_def)
    then show ?thesis by fastforce
  next
    case nodir
    then have "snd (script env st0) =
        (st0\<lparr>already_processed_files := load_processed_files (read_log env st0)\<rparr>)
          \<lparr>trace := trace st0 @ [MissingInputDir]\<rparr>"
      by (simp add: script_def main_def log_event_def)
    then show ?thesis by fastforce
  next
    case idle
    have "snd (script env st0) =
        (st0\<lparr>already_processed_files := load_processed_files (read_log env st0)\<rparr>)
          \<lparr>trace := trace st0 @ [NothingToDo]\<rparr>"
      using script_nothing_to_do [OF idle] by (simp add: log_event_def)
    then show ?thesis by fastforce
  qed
qed

section \<open>The log entry comes after the merge\<close>

text \<open>
  Where a message that reports an addition to the log stands in a trace made of two parts.
\<close>

lemma ledger_split:
  assumes a: "\<And>xs f ys. a = xs @ LedgerAdded f # ys \<Longrightarrow> Q f xs"
    and b: "\<And>xs f ys. b = xs @ LedgerAdded f # ys \<Longrightarrow> Q f (a @ xs)"
    and e: "a @ b = xs @ LedgerAdded f # ys"
  shows "Q f xs"
proof -
  from e obtain us where
    "a = xs @ us \<and> us @ b = LedgerAdded f # ys \<or> a @ us = xs \<and> b = us @ LedgerAdded f # ys"
    by (auto simp: append_eq_append_conv2)
  then consider (left) "a = xs @ us" "us @ b = LedgerAdded f # ys"
    | (right) "a @ us = xs" "b = us @ LedgerAdded f # ys"
    by blast
  then show ?thesis
  proof cases
    case left
    show ?thesis
    proof (cases us)
      case Nil
      with left have "b = [] @ LedgerAdded f # ys" "a = xs" by simp_all
      then show ?thesis using b [of "[]" f ys] by simp
    next
      case (Cons u us')
      with left have "a = xs @ LedgerAdded f # us'" by simp
      then show ?thesis by (rule a)
    qed
  next
    case right
    then show ?thesis using b [of us f ys] by simp
  qed
qed

lemma success_messages:
  assumes "[ConversionDone f, TextExtracted f, NoteWritten c p]
             @ (if w then [LedgerAdded f] else [LedgerWriteFailed f, CriticalWarning f])
             @ [ItemSucceeded f] = xs @ LedgerAdded g # ys"
  shows "w \<and> g = f \<and> xs = [ConversionDone f, TextExtracted f, NoteWritten c p]"
proof (cases w)
  case True
  then have "[ConversionDone f, TextExtracted f, NoteWritten c p, LedgerAdded f, ItemSucceeded f]
      = xs @ LedgerAdded g # ys"
    using assms by simp
  then show ?thesis
    using True by (simp add: Cons_eq_append_conv) (auto simp: Cons_eq_append_conv)
next
  case False
  then have "[ConversionDone f, TextExtracted f, NoteWritten c p, LedgerWriteFailed f,
       CriticalWarning f, ItemSucceeded f] = xs @ LedgerAdded g # ys"
    using assms by simp
  then have "LedgerAdded g \<in> set [ConversionDone f, TextExtracted f, NoteWritten c p,
       LedgerWriteFailed f, CriticalWarning f, ItemSucceeded f]"
    by (metis in_set_conv_decomp)
  then show ?thesis by simp
qed

text \<open>
  One file keeps the order: where the trace reports an addition to the log, the file named
  there succeeds, the log takes its name, and the three messages before the report are
  those of its conversion, its recognition and the merge into the note of its day.
\<close>

lemma process_item_order:
  assumes inv: "\<And>xs g ys. trace st = xs @ LedgerAdded g # ys \<Longrightarrow>
      item_succeeds env g \<and> log_takes env g \<and>
      (\<exists>day c. item_day env g = Some day \<and>
         suffix [ConversionDone g, TextExtracted g, NoteWritten c (day @ ascii ''.md'')] xs)"
    and e: "trace (process_item env f st) = xs @ LedgerAdded g # ys"
  shows "item_succeeds env g \<and> log_takes env g \<and>
      (\<exists>day c. item_day env g = Some day \<and>
         suffix [ConversionDone g, TextExtracted g, NoteWritten c (day @ ascii ''.md'')] xs)"
proof (cases "item_succeeds env f")
  case True
  then obtain day s where h: "item_day env f = Some day" "recognized_text env f = Some s"
      "open_note env (day @ ascii ''.md'') = None" "encodable (strip s)"
    using item_succeeds_iff by blast
  let ?c = "merge_case_of (daily_notes st (day @ ascii ''.md''))"
  let ?b = "[ConversionDone f, TextExtracted f, NoteWritten ?c (day @ ascii ''.md'')]
             @ (if log_takes env f then [LedgerAdded f] else [LedgerWriteFailed f, CriticalWarning f])
             @ [ItemSucceeded f]"
  have t: "trace st @ ?b = xs @ LedgerAdded g # ys"
    using e by (simp add: process_item_ok [OF h])
  show ?thesis
  proof (rule ledger_split [OF _ _ t])
    fix xs' g' ys'
    assume "trace st = xs' @ LedgerAdded g' # ys'"
    then show "item_succeeds env g' \<and> log_takes env g' \<and>
      (\<exists>day c. item_day env g' = Some day \<and>
         suffix [ConversionDone g', TextExtracted g', NoteWritten c (day @ ascii ''.md'')] xs')"
      by (rule inv)
  next
    fix xs' g' ys'
    assume "?b = xs' @ LedgerAdded g' # ys'"
    then have "log_takes env f \<and> g' = f \<and>
        xs' = [ConversionDone f, TextExtracted f, NoteWritten ?c (day @ ascii ''.md'')]"
      by (rule success_messages)
    then show "item_succeeds env g' \<and> log_takes env g' \<and>
      (\<exists>day c. item_day env g' = Some day \<and>
         suffix [ConversionDone g', TextExtracted g', NoteWritten c (day @ ascii ''.md'')]
           (trace st @ xs'))"
      using True h(1) by (auto simp: suffix_def)
  qed
next
  case False
  obtain evs where ev: "process_item env f st =
      st\<lparr>daily_notes := notes_after env f (daily_notes st), trace := trace st @ evs\<rparr>"
    "\<forall>ev\<in>set evs. ev \<in> {ConversionDone f, InvalidResponse f, TextExtracted f} \<or>
                    (\<exists>c. ev = ItemFailed f c)"
    using process_item_not_ok [OF False] by blast
  have t: "trace st @ evs = xs @ LedgerAdded g # ys"
    using e by (simp add: ev(1))
  show ?thesis
  proof (rule ledger_split [OF _ _ t])
    fix xs' g' ys'
    assume "trace st = xs' @ LedgerAdded g' # ys'"
    then show "item_succeeds env g' \<and> log_takes env g' \<and>
      (\<exists>day c. item_day env g' = Some day \<and>
         suffix [ConversionDone g', TextExtracted g', NoteWritten c (day @ ascii ''.md'')] xs')"
      by (rule inv)
  next
    fix xs' g' ys'
    assume "evs = xs' @ LedgerAdded g' # ys'"
    then have "LedgerAdded g' \<in> set evs" by simp
    then show "item_succeeds env g' \<and> log_takes env g' \<and>
      (\<exists>day c. item_day env g' = Some day \<and>
         suffix [ConversionDone g', TextExtracted g', NoteWritten c (day @ ascii ''.md'')]
           (trace st @ xs'))"
      using failure_messages(3) [OF ev(2)] by simp
  qed
qed

lemma process_files_order:
  assumes "\<And>xs g ys. trace st = xs @ LedgerAdded g # ys \<Longrightarrow>
      item_succeeds env g \<and> log_takes env g \<and>
      (\<exists>day c. item_day env g = Some day \<and>
         suffix [ConversionDone g, TextExtracted g, NoteWritten c (day @ ascii ''.md'')] xs)"
    and "trace (process_files env fs st) = xs @ LedgerAdded g # ys"
  shows "item_succeeds env g \<and> log_takes env g \<and>
      (\<exists>day c. item_day env g = Some day \<and>
         suffix [ConversionDone g, TextExtracted g, NoteWritten c (day @ ascii ''.md'')] xs)"
  using assms
proof (induction fs arbitrary: st xs g ys)
  case Nil
  then show ?case by simp
next
  case (Cons f fs)
  have inv': "item_succeeds env g' \<and> log_takes env g' \<and>
      (\<exists>day c. item_day env g' = Some day \<and>
         suffix [ConversionDone g', TextExtracted g', NoteWritten c (day @ ascii ''.md'')] xs')"
    if "trace (process_item env f st) = xs' @ LedgerAdded g' # ys'" for xs' g' ys'
    using Cons.prems(1) that by (rule process_item_order)
  have t: "trace (process_files env fs (process_item env f st)) = xs @ LedgerAdded g # ys"
    using Cons.prems(2) by simp
  show ?case
    using inv' t by (rule Cons.IH)
qed

end
